theory Spec2Isabelle
  imports
    Main
    "HOL-Library.Word"
    "HOL-Library.Signed_Division"
begin

section \<open>Go runtime: panics, indexing and slicing\<close>

text \<open>
  A run-time panic of the Go program is a value: every function of the model that indexes or
  slices returns \<open>panic + 'a\<close>, with \<open>Inl\<close> for the panic. The mutex of the queues is
  not modelled: every method is one atomic, sequential step on the contents.

  A Go slice is modelled by the list of its elements; a nil slice and an empty slice are both
  \<open>[]\<close>. The model has no backing array, so a value returned by a method is the
  contents at the moment of the return, and reslicing beyond the length into spare capacity
  (legal in Go up to the capacity) is a panic of \<open>slice_to\<close>. The only place where the
  source reslices beyond the length is the last branch of \<open>CutBefore\<close>, and there the very
  next statement raises the same panic whatever the capacity is.

  Indices, lengths and the \<open>int\<close> arguments of the queue methods are mathematical
  integers: the source only compares them and adds small constants to values bounded by the
  length of a slice. Go's \<open>/\<close> truncates towards zero: it is \<open>sdiv\<close>.
\<close>

datatype panic = IndexOutOfRange | SliceBoundsOutOfRange | ActionPanic

definition index :: "'a list \<Rightarrow> int \<Rightarrow> panic + 'a" where
  \<comment> \<open>\<open>s[i]\<close>\<close>
  "index s i = (if 0 \<le> i \<and> i < int (length s) then Inr (s ! nat i) else Inl IndexOutOfRange)"

definition slice_from :: "'a list \<Rightarrow> int \<Rightarrow> panic + 'a list" where
  \<comment> \<open>\<open>s[lo:]\<close>\<close>
  "slice_from s lo =
     (if 0 \<le> lo \<and> lo \<le> int (length s) then Inr (drop (nat lo) s)
      else Inl SliceBoundsOutOfRange)"

definition slice_to :: "'a list \<Rightarrow> int \<Rightarrow> panic + 'a list" where
  \<comment> \<open>\<open>s[:hi]\<close> and \<open>s[0:hi]\<close>\<close>
  "slice_to s hi =
     (if 0 \<le> hi \<and> hi \<le> int (length s) then Inr (take (nat hi) s)
      else Inl SliceBoundsOutOfRange)"

section \<open>Elements and ordering modes\<close>

datatype OrderingMode = OrderingAsc | OrderingDesc

text \<open>
  Modelled from the spec: the declaration of the interface \<open>IElement\<close> is not among the
  sources. An element exposes an identity (\<open>GetID\<close>, a string) and an ordering value
  (\<open>OrderingValue\<close>, an int64, which the queues only compare: it is its integer value here).
  An interface value is the record of what its methods return; the extension of the record is
  the object behind the interface.
\<close>

record IElement =
  GetID :: string
  OrderingValue :: int

section \<open>The ordered queue\<close>

subsection \<open>Binary search for the inserting index\<close>

text \<open>
  The loop of \<open>findOrderedQueueInsertingIndex\<close>, on the variables \<open>idx\<close>,
  \<open>originIdx\<close>, \<open>minIdx\<close> and \<open>maxIdx\<close> (\<open>left\<close> is recomputed by every iteration).
\<close>

function findOrderedQueueInsertingIndex_loop ::
  "'a IElement_scheme list \<Rightarrow> int \<Rightarrow> 'a IElement_scheme \<Rightarrow> OrderingMode \<Rightarrow>
   int \<Rightarrow> int \<Rightarrow> int \<Rightarrow> int \<Rightarrow> panic + int"
where
  "findOrderedQueueInsertingIndex_loop queue l item mode idx originIdx minIdx maxIdx =
    (if idx < l then
       (case index queue idx of
          Inl e \<Rightarrow> Inl e
        | Inr qe \<Rightarrow>
            let left = (if OrderingDesc = mode
                        then OrderingValue item > OrderingValue qe
                        else OrderingValue item < OrderingValue qe)
            in if left \<and> idx \<le> 0 then Inr idx
               else
                 let maxIdx' = (if left then idx - 1 else maxIdx);
                     minIdx' = (if left then minIdx else idx + 1);
                     idx' = (minIdx' + maxIdx' + 1) sdiv 2
                 in if idx' = originIdx then Inr idx'
                    else findOrderedQueueInsertingIndex_loop queue l item mode
                           idx' idx' minIdx' maxIdx')
     else Inr idx)"
  by pat_completeness auto
termination
proof (relation "measures [
    (\<lambda>(queue, l, item, mode, idx, originIdx, minIdx, maxIdx).
        if idx = originIdx \<and> idx = (minIdx + maxIdx + 1) sdiv 2 then 0 else 1),
    (\<lambda>(queue, l, item, mode, idx, originIdx, minIdx, maxIdx).
        nat \<bar>2 * (maxIdx - minIdx) + 3\<bar>)]", goal_cases)
  case 1
  show ?case by simp
next
  case (2 queue l item mode idx originIdx minIdx maxIdx qe left maxIdx' minIdx' idx')
  have sdiv2: "k sdiv 2 = (if 0 \<le> k then k div 2 else - ((- k) div 2))" for k :: int
    by (simp add: signed_divide_int_def sgn_if)
  have div2_bounds: "2 * (k div 2) \<le> k \<and> k \<le> 2 * (k div 2) + 1" for k :: int
    by presburger
  have div2_neq: "(k div 2 \<noteq> j) = (k < 2 * j \<or> 2 * j + 1 < k)" for k j :: int
    by presburger
  have rng: "0 \<le> idx"
    using 2(2) by (simp add: index_def split: if_splits)
  have new: "idx' = (minIdx' + maxIdx' + 1) sdiv 2"
    using 2(7) .
  show ?case
  proof (cases "idx = originIdx \<and> idx = (minIdx + maxIdx + 1) sdiv 2")
    case False
    then show ?thesis using new by auto
  next
    case True
    then have ne: "idx' \<noteq> idx" and inv: "idx = (minIdx + maxIdx + 1) sdiv 2"
      using 2(8) by simp_all
    have "\<bar>2 * (maxIdx' - minIdx') + 3\<bar> < \<bar>2 * (maxIdx - minIdx) + 3\<bar>"
    proof (cases left)
      case True
      then have pos: "0 < idx" using 2(4) by auto
      have upd: "maxIdx' = idx - 1" "minIdx' = minIdx" using True 2(5,6) by simp_all
      have a: "0 \<le> minIdx + maxIdx + 1"
        using inv pos by (simp add: sdiv2 split: if_splits)
      then have b: "idx = (minIdx + maxIdx + 1) div 2" using inv by (simp add: sdiv2)
      have c: "2 * idx \<le> minIdx + maxIdx + 1" "minIdx + maxIdx + 1 \<le> 2 * idx + 1"
        using div2_bounds [of "minIdx + maxIdx + 1"] b by simp_all
      have ne': "(minIdx + idx) sdiv 2 \<noteq> idx" using ne new upd by simp
      show ?thesis
      proof (cases "0 \<le> minIdx + idx")
        case True
        then have "(minIdx + idx) div 2 \<noteq> idx" using ne' by (simp add: sdiv2)
        then have "minIdx + idx < 2 * idx \<or> 2 * idx + 1 < minIdx + idx"
          by (simp only: div2_neq)
        then show ?thesis using c pos upd by fastforce
      next
        case False
        then show ?thesis using c pos upd by fastforce
      qed
    next
      case False
      then have upd: "maxIdx' = maxIdx" "minIdx' = idx + 1" using 2(5,6) by simp_all
      have ne': "(idx + maxIdx + 2) sdiv 2 \<noteq> idx"
        using ne new upd by (simp add: add.commute add.left_commute)
      show ?thesis
      proof (cases "0 \<le> minIdx + maxIdx + 1")
        case True
        then have b: "idx = (minIdx + maxIdx + 1) div 2" using inv by (simp add: sdiv2)
        have c: "2 * idx \<le> minIdx + maxIdx + 1" "minIdx + maxIdx + 1 \<le> 2 * idx + 1"
          using div2_bounds [of "minIdx + maxIdx + 1"] b by simp_all
        show ?thesis
        proof (cases "0 \<le> idx + maxIdx + 2")
          case True
          then have "(idx + maxIdx + 2) div 2 \<noteq> idx" using ne' by (simp add: sdiv2)
          then have "idx + maxIdx + 2 < 2 * idx \<or> 2 * idx + 1 < idx + maxIdx + 2"
            by (simp only: div2_neq)
          then show ?thesis using c rng upd by fastforce
        next
          case False
          then show ?thesis using c rng upd by fastforce
        qed
      next
        case False
        then have n: "minIdx + maxIdx + 1 < 0" by simp
        then have "idx = - ((- (minIdx + maxIdx + 1)) div 2)" using inv by (simp add: sdiv2)
        then have "(- (minIdx + maxIdx + 1)) div 2 = - idx" by simp
        then have "2 * (- idx) \<le> - (minIdx + maxIdx + 1)"
            "- (minIdx + maxIdx + 1) \<le> 2 * (- idx) + 1"
          using div2_bounds [of "- (minIdx + maxIdx + 1)"] by simp_all
        then have i0: "idx = 0" and s: "minIdx + maxIdx + 1 = - 1"
          using n rng by linarith+
        have ne0: "(maxIdx + 2) sdiv 2 \<noteq> 0" using ne' i0 by simp
        show ?thesis
        proof (cases "0 \<le> maxIdx + 2")
          case True
          then have "(maxIdx + 2) div 2 \<noteq> 0" using ne0 by (simp add: sdiv2)
          then have "maxIdx + 2 < 2 * 0 \<or> 2 * 0 + 1 < maxIdx + 2" by (simp only: div2_neq)
          then show ?thesis using s i0 True upd by fastforce
        next
          case False
          then have "(- (maxIdx + 2)) div 2 \<noteq> 0" using ne0 by (simp add: sdiv2)
          then have "- (maxIdx + 2) < 2 * 0 \<or> 2 * 0 + 1 < - (maxIdx + 2)"
            by (simp only: div2_neq)
          then show ?thesis using s i0 False upd by fastforce
        qed
      qed
    qed
    then have "nat \<bar>2 * (maxIdx' - minIdx') + 3\<bar> < nat \<bar>2 * (maxIdx - minIdx) + 3\<bar>"
      by simp
    then show ?thesis using True new by simp
  qed
qed


definition findOrderedQueueInsertingIndex ::
  "'a IElement_scheme list \<Rightarrow> int \<Rightarrow> 'a IElement_scheme \<Rightarrow> OrderingMode \<Rightarrow> panic + int"
where
  \<comment> \<open>\<open>nil == *queue\<close> is \<open>queue = []\<close>; the callers pass \<open>l = len(*queue)\<close>\<close>
  "findOrderedQueueInsertingIndex queue l item mode =
     (if queue = [] \<or> 0 \<ge> l then Inr 0
      else findOrderedQueueInsertingIndex_loop queue l item mode (l sdiv 2) (l sdiv 2) 0 (l - 1))"

definition checkInsertBefore ::
  "'a IElement_scheme \<Rightarrow> 'a IElement_scheme \<Rightarrow> OrderingMode \<Rightarrow> bool"
where
  "checkInsertBefore e1 e2 mode =
     (if OrderingDesc = mode then OrderingValue e1 > OrderingValue e2
      else OrderingValue e1 < OrderingValue e2)"

definition pushItemToOrderedQueue ::
  "'a IElement_scheme list \<Rightarrow> int \<Rightarrow> 'a IElement_scheme \<Rightarrow> OrderingMode \<Rightarrow>
   panic + 'a IElement_scheme list"
where
  "pushItemToOrderedQueue queue l item mode =
     (if queue = [] \<or> 0 \<ge> l then Inr [item]
      else
        case findOrderedQueueInsertingIndex queue l item mode of
          Inl e \<Rightarrow> Inl e
        | Inr idx \<Rightarrow>
            if idx \<ge> l then Inr (queue @ [item])
            else
              case slice_from queue idx of
                Inl e \<Rightarrow> Inl e
              | Inr tails \<Rightarrow>
                  (case slice_to queue idx of
                     Inl e \<Rightarrow> Inl e
                   | Inr heads \<Rightarrow> Inr ((heads @ [item]) @ tails)))"

subsection \<open>Loops of the methods of both queues\<close>

text \<open>
  The copying loop of \<open>PopMany\<close>: \<open>items[i] = q.queue[i]\<close> for \<open>i\<close> from 0 below
  \<open>maxLen\<close>. \<open>items\<close> is made with \<open>maxLen\<close> nil entries and filled in increasing
  \<open>i\<close>; the model carries the filled prefix.
\<close>

function PopMany_loop ::
  "'a list \<Rightarrow> int \<Rightarrow> int \<Rightarrow> 'a list \<Rightarrow> panic + 'a list"
where
  "PopMany_loop queue maxLen i items =
     (if i < maxLen then
        (case index queue i of
           Inl e \<Rightarrow> Inl e
         | Inr x \<Rightarrow> PopMany_loop queue maxLen (i + 1) (items @ [x]))
      else Inr items)"
  by pat_completeness auto
termination
  by (relation "measure (\<lambda>(queue, maxLen, i, items). nat (maxLen - i))") auto

text \<open>
  The two scanning loops of \<open>findElementIndex\<close>. Each returns \<open>Some cursor\<close> when the
  loop body returns, and \<open>None\<close> when the loop ends without a match.
\<close>

function findElementIndex_forward ::
  "'a IElement_scheme list \<Rightarrow> 'a IElement_scheme \<Rightarrow> int \<Rightarrow> int \<Rightarrow> panic + int option"
where
  "findElementIndex_forward queue item cursor max' =
     (if cursor < max' then
        (case index queue cursor of
           Inl e \<Rightarrow> Inl e
         | Inr qe \<Rightarrow>
             if GetID item = GetID qe then Inr (Some cursor)
             else findElementIndex_forward queue item (cursor + 1) max')
      else Inr None)"
  by pat_completeness auto
termination
  by (relation "measure (\<lambda>(queue, item, cursor, max'). nat (max' - cursor))") auto

function findElementIndex_backward ::
  "'a IElement_scheme list \<Rightarrow> 'a IElement_scheme \<Rightarrow> int \<Rightarrow> int \<Rightarrow> panic + int option"
where
  "findElementIndex_backward queue item cursor min' =
     (if cursor > min' then
        (case index queue cursor of
           Inl e \<Rightarrow> Inl e
         | Inr qe \<Rightarrow>
             if GetID item = GetID qe then Inr (Some cursor)
             else findElementIndex_backward queue item (cursor - 1) min')
      else Inr None)"
  by pat_completeness auto
termination
  by (relation "measure (\<lambda>(queue, item, cursor, min'). nat (cursor - min'))") auto

section \<open>The FIFO queue\<close>

record 'a FIFOQueue =
  queue :: "'a IElement_scheme list"

definition NewFIFOQueue :: "'a FIFOQueue" where
  "NewFIFOQueue = \<lparr>queue = []\<rparr>"

definition FIFOQueue_Push ::
  "'a FIFOQueue \<Rightarrow> 'a IElement_scheme \<Rightarrow> bool \<times> 'a FIFOQueue"
where
  "FIFOQueue_Push q item =
     (if queue q = [] then (True, q\<lparr>queue := [item]\<rparr>)
      else (True, q\<lparr>queue := queue q @ [item]\<rparr>))"

definition FIFOQueue_Pop ::
  "'a FIFOQueue \<Rightarrow> panic + ('a IElement_scheme option \<times> 'a FIFOQueue)"
where
  "FIFOQueue_Pop q =
     (if int (length (queue q)) \<le> 0 then Inr (None, q)
      else
        case index (queue q) 0 of
          Inl e \<Rightarrow> Inl e
        | Inr item \<Rightarrow>
            (case slice_from (queue q) 1 of
               Inl e \<Rightarrow> Inl e
             | Inr rest \<Rightarrow> Inr (Some item, q\<lparr>queue := [] @ rest\<rparr>)))"

definition FIFOQueue_PopMany ::
  "'a FIFOQueue \<Rightarrow> int \<Rightarrow>
   panic + (('a IElement_scheme list option \<times> int) \<times> 'a FIFOQueue)"
where
  "FIFOQueue_PopMany q maxResults =
     (let maxLen = int (length (queue q))
      in if 0 \<ge> maxLen \<or> 0 \<ge> maxResults then Inr ((None, 0), q)
         else
           let maxLen = (if maxLen > maxResults then maxResults else maxLen)
           in case PopMany_loop (queue q) maxLen 0 [] of
                Inl e \<Rightarrow> Inl e
              | Inr items \<Rightarrow>
                  (case slice_from (queue q) maxLen of
                     Inl e \<Rightarrow> Inl e
                   | Inr rest \<Rightarrow> Inr ((Some items, maxLen), q\<lparr>queue := [] @ rest\<rparr>)))"

definition FIFOQueue_Elements :: "'a FIFOQueue \<Rightarrow> 'a IElement_scheme list" where
  "FIFOQueue_Elements q = [] @ queue q"

definition FIFOQueue_CutBefore ::
  "'a FIFOQueue \<Rightarrow> int \<Rightarrow> panic + ('a IElement_scheme list \<times> 'a FIFOQueue)"
where
  "FIFOQueue_CutBefore q idx =
     (if 0 > idx then Inr ([], q)
      else if int (length (queue q)) \<ge> idx then Inr (queue q, q\<lparr>queue := []\<rparr>)
      else
        case slice_to (queue q) idx of
          Inl e \<Rightarrow> Inl e
        | Inr cuts \<Rightarrow>
            (case slice_from (queue q) idx of
               Inl e \<Rightarrow> Inl e
             | Inr rest \<Rightarrow> Inr (cuts, q\<lparr>queue := rest\<rparr>)))"

definition FIFOQueue_CutAfter ::
  "'a FIFOQueue \<Rightarrow> int \<Rightarrow> panic + ('a IElement_scheme list \<times> 'a FIFOQueue)"
where
  "FIFOQueue_CutAfter q idx =
     (if 0 > idx then Inr (queue q, q\<lparr>queue := []\<rparr>)
      else if int (length (queue q)) \<ge> idx then Inr ([], q)
      else
        case slice_from (queue q) (idx + 1) of
          Inl e \<Rightarrow> Inl e
        | Inr cuts \<Rightarrow>
            (case slice_to (queue q) (idx + 1) of
               Inl e \<Rightarrow> Inl e
             | Inr rest \<Rightarrow> Inr (cuts, q\<lparr>queue := rest\<rparr>)))"

section \<open>The ordered queue: the queue and its methods\<close>


record 'a OrderedQueue =
  queue :: "'a IElement_scheme list"
  ordering :: OrderingMode

definition NewAscOrderingQueue :: "'a OrderedQueue" where
  "NewAscOrderingQueue = \<lparr>queue = [], ordering = OrderingAsc\<rparr>"

definition NewDescOrderingQueue :: "'a OrderedQueue" where
  "NewDescOrderingQueue = \<lparr>queue = [], ordering = OrderingDesc\<rparr>"

definition OrderedQueue_Add ::
  "'a OrderedQueue \<Rightarrow> 'a IElement_scheme \<Rightarrow> panic + 'a OrderedQueue"
where
  "OrderedQueue_Add q item =
     (let ql = int (length (queue q))
      in case pushItemToOrderedQueue (queue q) ql item (ordering q) of
           Inl e \<Rightarrow> Inl e
         | Inr queue' \<Rightarrow> Inr (q\<lparr>queue := queue'\<rparr>))"

definition OrderedQueue_Push ::
  "'a OrderedQueue \<Rightarrow> 'a IElement_scheme \<Rightarrow> panic + (bool \<times> 'a OrderedQueue)"
where
  "OrderedQueue_Push q item =
     (case OrderedQueue_Add q item of Inl e \<Rightarrow> Inl e | Inr q' \<Rightarrow> Inr (True, q'))"


text \<open>The first component of the result of \<open>PopMany\<close> is \<open>None\<close> for Go's nil slice.\<close>

definition OrderedQueue_PopMany ::
  "'a OrderedQueue \<Rightarrow> int \<Rightarrow>
   panic + (('a IElement_scheme list option \<times> int) \<times> 'a OrderedQueue)"
where
  "OrderedQueue_PopMany q maxResults =
     (let maxLen = int (length (queue q))
      in if 0 \<ge> maxLen \<or> 0 \<ge> maxResults then Inr ((None, 0), q)
         else
           let maxLen = (if maxLen > maxResults then maxResults else maxLen)
           in case PopMany_loop (queue q) maxLen 0 [] of
                Inl e \<Rightarrow> Inl e
              | Inr items \<Rightarrow>
                  (case slice_from (queue q) maxLen of
                     Inl e \<Rightarrow> Inl e
                   | Inr rest \<Rightarrow> Inr ((Some items, maxLen), q\<lparr>queue := [] @ rest\<rparr>)))"

definition OrderedQueue_First ::
  "'a OrderedQueue \<Rightarrow> panic + 'a IElement_scheme option"
where
  "OrderedQueue_First q =
     (if int (length (queue q)) \<le> 0 then Inr None
      else case index (queue q) 0 of Inl e \<Rightarrow> Inl e | Inr item \<Rightarrow> Inr (Some item))"

definition OrderedQueue_Elements :: "'a OrderedQueue \<Rightarrow> 'a IElement_scheme list" where
  "OrderedQueue_Elements q = [] @ queue q"

definition OrderedQueue_GetSize :: "'a OrderedQueue \<Rightarrow> int" where
  "OrderedQueue_GetSize q = int (length (queue q))"

definition OrderedQueue_findElementIndex ::
  "'a OrderedQueue \<Rightarrow> 'a IElement_scheme \<Rightarrow> panic + int"
where
  "OrderedQueue_findElementIndex q item =
     (let l = int (length (queue q))
      in if 0 \<ge> l then Inr (- 1)
         else
           case findOrderedQueueInsertingIndex (queue q) l item (ordering q) of
             Inl e \<Rightarrow> Inl e
           | Inr idx \<Rightarrow>
               let cursor = idx;
                   max' = idx + 2;
                   min' = idx - 2;
                   max' = (if max' > l then l else max');
                   min' = (if - 1 > min' then - 1 else min')
               in case findElementIndex_forward (queue q) item cursor max' of
                    Inl e \<Rightarrow> Inl e
                  | Inr (Some found) \<Rightarrow> Inr found
                  | Inr None \<Rightarrow>
                      (let cursor = idx - 1
                       in case findElementIndex_backward (queue q) item cursor min' of
                            Inl e \<Rightarrow> Inl e
                          | Inr (Some found) \<Rightarrow> Inr found
                          | Inr None \<Rightarrow> Inr (- 1)))"

definition OrderedQueue_Remove ::
  "'a OrderedQueue \<Rightarrow> 'a IElement_scheme \<Rightarrow> panic + (bool \<times> 'a OrderedQueue)"
where
  "OrderedQueue_Remove q item =
     (case OrderedQueue_findElementIndex q item of
        Inl e \<Rightarrow> Inl e
      | Inr idx \<Rightarrow>
          if 0 > idx then Inr (False, q)
          else
            case slice_to (queue q) idx of
              Inl e \<Rightarrow> Inl e
            | Inr heads \<Rightarrow>
                (case slice_from (queue q) (idx + 1) of
                   Inl e \<Rightarrow> Inl e
                 | Inr tails \<Rightarrow> Inr (True, q\<lparr>queue := heads @ tails\<rparr>)))"

definition OrderedQueue_GetOne ::
  "'a OrderedQueue \<Rightarrow> 'a IElement_scheme \<Rightarrow> panic + ('a IElement_scheme \<times> bool)"
where
  "OrderedQueue_GetOne q item =
     (case OrderedQueue_findElementIndex q item of
        Inl e \<Rightarrow> Inl e
      | Inr idx \<Rightarrow> if 0 > idx then Inr (item, False) else Inr (item, True))"

definition OrderedQueue_CutBefore ::
  "'a OrderedQueue \<Rightarrow> int \<Rightarrow> panic + ('a IElement_scheme list \<times> 'a OrderedQueue)"
where
  "OrderedQueue_CutBefore q idx =
     (if 0 > idx then Inr ([], q)
      else if int (length (queue q)) \<ge> idx then Inr (queue q, q\<lparr>queue := []\<rparr>)
      else
        case slice_to (queue q) idx of
          Inl e \<Rightarrow> Inl e
        | Inr cuts \<Rightarrow>
            (case slice_from (queue q) idx of
               Inl e \<Rightarrow> Inl e
             | Inr rest \<Rightarrow> Inr (cuts, q\<lparr>queue := rest\<rparr>)))"

definition OrderedQueue_CutAfter ::
  "'a OrderedQueue \<Rightarrow> int \<Rightarrow> panic + ('a IElement_scheme list \<times> 'a OrderedQueue)"
where
  "OrderedQueue_CutAfter q idx =
     (if 0 > idx then Inr (queue q, q\<lparr>queue := []\<rparr>)
      else if int (length (queue q)) \<ge> idx then Inr ([], q)
      else
        case slice_from (queue q) (idx + 1) of
          Inl e \<Rightarrow> Inl e
        | Inr cuts \<Rightarrow>
            (case slice_to (queue q) (idx + 1) of
               Inl e \<Rightarrow> Inl e
             | Inr rest \<Rightarrow> Inr (cuts, q\<lparr>queue := rest\<rparr>)))"

section \<open>The retry scheduler of the HTTP client\<close>

text \<open>
  Go's \<open>int\<close> is taken 64 bits wide, like \<open>int64\<close>: both are \<open>64 word\<close>, read as
  two's complement (\<open>sint\<close>, \<open><s\<close>, \<open>\<le>s\<close>); \<open>+\<close> and \<open>*\<close> wrap around as Go's
  do. The ordering value of a request entity is the integer value of its trigger timestamp.
\<close>

type_synonym int64 = "64 word"

definition RetryDurationFactor :: int64 where
  "RetryDurationFactor = 5"

text \<open>
  Of \<open>httpClientOption\<close> the scheduler reads \<open>retries\<close> and \<open>shouldRetry\<close>; the other
  fields (headers, TLS options, proxies, timeouts, success status codes) are the extension of
  the record.
\<close>

record httpClientOption =
  retries :: int64
  shouldRetry :: int64

record 'o requestEntity =
  method' :: string
  url :: string
  body :: "8 word list"
  options :: "'o httpClientOption_scheme"
  triggerTimestamp :: int64

text \<open>
  A \<open>*requestEntity\<close> as an \<open>IElement\<close>: \<open>GetID\<close> returns the url and
  \<open>OrderingValue\<close> the trigger timestamp. The object behind an element of the pending queue
  is \<open>Some\<close> request entity, or \<open>None\<close> for a value of any other type, on which the
  type assertion of \<open>checkRetryEntity\<close> fails.
\<close>

definition requestEntity_IElement ::
  "'o requestEntity \<Rightarrow> ('o requestEntity option) IElement_scheme"
where
  "requestEntity_IElement r =
     \<lparr>GetID = url r, OrderingValue = sint (triggerTimestamp r), \<dots> = Some r\<rparr>"

text \<open>
  The package variables \<open>_pendingRequestsQueue\<close> and \<open>_pendingRequestsTimer\<close> (is the
  ticker there?) are the state of the scheduler.
\<close>

record 'o scheduler =
  pendingRequestsQueue :: "('o requestEntity option) OrderedQueue"
  pendingRequestsTimer :: bool

definition formatRetryDuration :: "int64 \<Rightarrow> int64" where
  "formatRetryDuration retries' =
     (if retries' <s 3 then RetryDurationFactor else RetryDurationFactor * retries')"

text \<open>
  \<open>afterQueryFailed\<close>, with the reading of the clock (\<open>time.Now().Unix()\<close>) as the
  argument \<open>now\<close>. The status code, the error, the response body and the logger only feed
  the log. \<open>retryDuration\<close> is computed and added to a copy of \<open>now\<close> that is thrown
  away. Starting the goroutine \<open>pendingRequestsTimer\<close>, whose first statements create the
  ticker, sets \<open>pendingRequestsTimer\<close>.
\<close>

definition afterQueryFailed ::
  "int64 \<Rightarrow> string \<Rightarrow> string \<Rightarrow> 8 word list \<Rightarrow> 'o httpClientOption_scheme \<Rightarrow>
   'o scheduler \<Rightarrow> panic + 'o scheduler"
where
  "afterQueryFailed now method'' queryURL body' opts s =
     (if 0 <s shouldRetry opts then
        if shouldRetry opts \<le>s retries opts then Inr s
        else
          let re = \<lparr>method' = method'', url = queryURL, body = body', options = opts,
                    triggerTimestamp = now + formatRetryDuration (retries opts)\<rparr>
          in case OrderedQueue_Push (pendingRequestsQueue s) (requestEntity_IElement re) of
               Inl e \<Rightarrow> Inl e
             | Inr (ok, q') \<Rightarrow>
                 Inr (s\<lparr>pendingRequestsQueue := q', pendingRequestsTimer := True\<rparr>)
      else Inr s)"






section \<open>Notions of the specification\<close>

text \<open>
  A finite sequence of \<open>Add\<close> calls on one queue, in order; a panic of a call ends the run.
\<close>

fun OrderedQueue_Add_all ::
  "'a OrderedQueue \<Rightarrow> 'a IElement_scheme list \<Rightarrow> panic + 'a OrderedQueue"
where
  "OrderedQueue_Add_all q [] = Inr q"
| "OrderedQueue_Add_all q (item # items) =
     (case OrderedQueue_Add q item of
        Inl e \<Rightarrow> Inl e
      | Inr q' \<Rightarrow> OrderedQueue_Add_all q' items)"

text \<open>
  A sequence is in the order of a mode when no element would be inserted before an earlier
  one: non-decreasing ordering values for the ascending mode, non-increasing for the
  descending mode.
\<close>

definition in_order :: "OrderingMode \<Rightarrow> 'a IElement_scheme list \<Rightarrow> bool" where
  "in_order mode xs = sorted_wrt (\<lambda>a b. \<not> checkInsertBefore b a mode) xs"

text \<open>
  The positions at which \<open>findElementIndex\<close> compares identities, in the order of the
  scan, for the estimate \<open>idx\<close> in a queue of length \<open>l\<close>: the estimate, the position
  after it and the position before it, those of them that are positions of the queue.
\<close>

definition scanned_positions :: "int \<Rightarrow> int \<Rightarrow> int list" where
  "scanned_positions idx l = filter (\<lambda>c. 0 \<le> c \<and> c < l) [idx, idx + 1, idx - 1]"

text \<open>
  The window in the words of the specification: two positions on each side of the estimate,
  clamped to the queue.
\<close>

definition claimed_window :: "int \<Rightarrow> int \<Rightarrow> int list" where
  "claimed_window idx l =
     filter (\<lambda>c. 0 \<le> c \<and> c < l) [idx - 2, idx - 1, idx, idx + 1, idx + 2]"


section \<open>Properties of the binary search\<close>

declare findOrderedQueueInsertingIndex_loop.simps [simp del]

lemma sdiv2_nonneg: "0 \<le> k \<Longrightarrow> (k::int) sdiv 2 = k div 2"
  by (simp add: signed_divide_int_def sgn_if)


lemma loop_exit:
  "\<not> idx < l \<Longrightarrow> findOrderedQueueInsertingIndex_loop xs l item mode idx origin m M = Inr idx"
  by (subst findOrderedQueueInsertingIndex_loop.simps) simp

lemma loop_left0:
  "idx < l \<Longrightarrow> 0 \<le> idx \<Longrightarrow> idx < int (length xs) \<Longrightarrow>
   checkInsertBefore item (xs ! nat idx) mode \<Longrightarrow> idx \<le> 0 \<Longrightarrow>
   findOrderedQueueInsertingIndex_loop xs l item mode idx origin m M = Inr idx"
  by (subst findOrderedQueueInsertingIndex_loop.simps)
     (simp add: index_def checkInsertBefore_def Let_def)

lemma loop_left:
  "idx < l \<Longrightarrow> 0 \<le> idx \<Longrightarrow> idx < int (length xs) \<Longrightarrow>
   checkInsertBefore item (xs ! nat idx) mode \<Longrightarrow> 0 < idx \<Longrightarrow>
   findOrderedQueueInsertingIndex_loop xs l item mode idx origin m M =
     (if (m + (idx - 1) + 1) sdiv 2 = origin then Inr ((m + (idx - 1) + 1) sdiv 2)
      else findOrderedQueueInsertingIndex_loop xs l item mode
             ((m + (idx - 1) + 1) sdiv 2) ((m + (idx - 1) + 1) sdiv 2) m (idx - 1))"
  by (subst findOrderedQueueInsertingIndex_loop.simps)
     (simp add: index_def checkInsertBefore_def Let_def)

lemma loop_right:
  "idx < l \<Longrightarrow> 0 \<le> idx \<Longrightarrow> idx < int (length xs) \<Longrightarrow>
   \<not> checkInsertBefore item (xs ! nat idx) mode \<Longrightarrow>
   findOrderedQueueInsertingIndex_loop xs l item mode idx origin m M =
     (if ((idx + 1) + M + 1) sdiv 2 = origin then Inr (((idx + 1) + M + 1) sdiv 2)
      else findOrderedQueueInsertingIndex_loop xs l item mode
             (((idx + 1) + M + 1) sdiv 2) (((idx + 1) + M + 1) sdiv 2) (idx + 1) M)"
  by (subst findOrderedQueueInsertingIndex_loop.simps)
     (simp add: index_def checkInsertBefore_def Let_def)

lemma loop_partition:
  fixes xs :: "'a IElement_scheme list"
  assumes l: "l = int (length xs)"
    and mono: "sorted_only \<longrightarrow> (\<forall>i j. 0 \<le> i \<and> i \<le> j \<and> j < l \<and> B i \<longrightarrow> B j)"
    and B: "\<And>i. B i = checkInsertBefore item (xs ! nat i) mode"
  shows "0 \<le> m \<Longrightarrow> M \<le> l - 1 \<Longrightarrow> m \<le> M + 1 \<Longrightarrow> idx = (m + M + 1) div 2 \<Longrightarrow>
     (sorted_only \<longrightarrow> (\<forall>i. 0 \<le> i \<and> i < m \<longrightarrow> \<not> B i) \<and> (\<forall>i. M < i \<and> i < l \<longrightarrow> B i)) \<Longrightarrow>
     \<exists>r. findOrderedQueueInsertingIndex_loop xs l item mode idx idx m M = Inr r
        \<and> m \<le> r \<and> r \<le> M + 1
        \<and> (sorted_only \<longrightarrow> (\<forall>i. 0 \<le> i \<and> i < r \<longrightarrow> \<not> B i) \<and> (\<forall>i. r \<le> i \<and> i < l \<longrightarrow> B i))"
proof (induction "nat (M - m + 1)" arbitrary: m M idx rule: less_induct)
  case less
  note inv = less.prems
  have idx_lo: "m \<le> idx" and idx_hi: "idx \<le> M + 1"
    using inv(3,4) by presburger+
  show ?case
  proof (cases "idx < l")
    case False
    then have "idx = l" "m = l" "M = l - 1" using idx_hi inv(2,3,4) by presburger+
    then show ?thesis
      using inv(5) by (simp add: loop_exit)
  next
    case True
    have rng: "0 \<le> idx" "idx < int (length xs)"
      using True idx_lo inv(1) l by simp_all
    show ?thesis
    proof (cases "B idx")
      case BT: True
      show ?thesis
      proof (cases "idx \<le> 0")
        case True
        then have z: "idx = 0" "m = 0" using idx_lo inv(1) by simp_all
        have "findOrderedQueueInsertingIndex_loop xs l item mode idx idx m M = Inr idx"
          using \<open>idx < l\<close> rng BT True by (intro loop_left0) (simp_all add: B)
        moreover have "sorted_only \<longrightarrow> (\<forall>i. 0 \<le> i \<and> i < l \<longrightarrow> B i)"
          using mono BT z \<open>idx < l\<close> by blast
        ultimately show ?thesis using z idx_hi by auto
      next
        case False
        then have pos: "0 < idx" by simp
        define idx' where "idx' = (m + (idx - 1) + 1) div 2"
        have sd: "(m + (idx - 1) + 1) sdiv 2 = idx'"
          using inv(1) pos by (simp add: idx'_def sdiv2_nonneg)
        have step: "findOrderedQueueInsertingIndex_loop xs l item mode idx idx m M =
            (if idx' = idx then Inr idx'
             else findOrderedQueueInsertingIndex_loop xs l item mode idx' idx' m (idx - 1))"
          using loop_left [where m = m and M = M and origin = idx and idx = idx and l = l and xs = xs and item = item and mode = mode]
            \<open>idx < l\<close> rng BT pos sd by (simp add: B)
        have above: "sorted_only \<longrightarrow> (\<forall>i. idx - 1 < i \<and> i < l \<longrightarrow> B i)"
          using mono BT idx_lo inv(1) \<open>idx < l\<close>
          by (metis add.commute dual_order.trans zle_diff1_eq zle_add1_eq_le less_le_not_le linorder_le_less_linear)
        show ?thesis
        proof (cases "idx' = idx")
          case True
          then have "m = idx" using idx_lo idx'_def by presburger
          then show ?thesis using step True inv(5) above idx_hi by auto
        next
          case False
          then have lt: "m < idx" "idx \<le> M" using idx_lo idx'_def inv(3,4) by presburger+
          have "\<exists>r. findOrderedQueueInsertingIndex_loop xs l item mode idx' idx' m (idx - 1) = Inr r
              \<and> m \<le> r \<and> r \<le> (idx - 1) + 1
              \<and> (sorted_only \<longrightarrow> (\<forall>i. 0 \<le> i \<and> i < r \<longrightarrow> \<not> B i) \<and> (\<forall>i. r \<le> i \<and> i < l \<longrightarrow> B i))"
          proof (rule less.hyps)
            show "nat (idx - 1 - m + 1) < nat (M - m + 1)" using lt by simp
            show "0 \<le> m" by (rule inv(1))
            show "idx - 1 \<le> l - 1" using \<open>idx < l\<close> by simp
            show "m \<le> idx - 1 + 1" using lt by simp
            show "idx' = (m + (idx - 1) + 1) div 2" by (simp add: idx'_def)
            show "sorted_only \<longrightarrow> (\<forall>i. 0 \<le> i \<and> i < m \<longrightarrow> \<not> B i) \<and> (\<forall>i. idx - 1 < i \<and> i < l \<longrightarrow> B i)"
              using inv(5) above by simp
          qed
          then show ?thesis using step False lt by auto
        qed
      qed
    next
      case BF: False
      define idx' where "idx' = ((idx + 1) + M + 1) div 2"
      have nn: "0 \<le> (idx + 1) + M + 1" using idx_lo idx_hi inv(1) by simp
      have sd: "((idx + 1) + M + 1) sdiv 2 = idx'"
        using nn by (simp only: idx'_def sdiv2_nonneg)
      have step: "findOrderedQueueInsertingIndex_loop xs l item mode idx idx m M =
          (if idx' = idx then Inr idx'
           else findOrderedQueueInsertingIndex_loop xs l item mode idx' idx' (idx + 1) M)"
        using loop_right [where m = m and M = M and origin = idx and idx = idx and l = l and xs = xs and item = item and mode = mode]
          \<open>idx < l\<close> rng BF sd by (simp add: B)
      have below: "sorted_only \<longrightarrow> (\<forall>i. 0 \<le> i \<and> i < idx + 1 \<longrightarrow> \<not> B i)"
        using mono BF \<open>idx < l\<close> by (metis zle_add1_eq_le add.commute less_le_not_le linorder_le_less_linear)
      show ?thesis
      proof (cases "idx' = idx")
        case True
        then have e: "idx = M + 1" "m = idx" using idx_lo idx_hi idx'_def inv(3,4) by presburger+
        then show ?thesis using step True inv(5) by auto
      next
        case False
        then have lt: "idx \<le> M" using idx_hi idx'_def by presburger
        have "\<exists>r. findOrderedQueueInsertingIndex_loop xs l item mode idx' idx' (idx + 1) M = Inr r
            \<and> idx + 1 \<le> r \<and> r \<le> M + 1
            \<and> (sorted_only \<longrightarrow> (\<forall>i. 0 \<le> i \<and> i < r \<longrightarrow> \<not> B i) \<and> (\<forall>i. r \<le> i \<and> i < l \<longrightarrow> B i))"
        proof (rule less.hyps)
          show "nat (M - (idx + 1) + 1) < nat (M - m + 1)" using lt idx_lo by simp
          show "0 \<le> idx + 1" using idx_lo inv(1) by simp
          show "M \<le> l - 1" by (rule inv(2))
          show "idx + 1 \<le> M + 1" using lt by simp
          show "idx' = (idx + 1 + M + 1) div 2" by (simp add: idx'_def)
          show "sorted_only \<longrightarrow> (\<forall>i. 0 \<le> i \<and> i < idx + 1 \<longrightarrow> \<not> B i) \<and> (\<forall>i. M < i \<and> i < l \<longrightarrow> B i)"
            using inv(5) below by simp
        qed
        then show ?thesis using step False idx_lo by auto
      qed
    qed
  qed
qed

lemma findOrderedQueueInsertingIndex_range:
  fixes xs :: "'a IElement_scheme list"
  shows "\<exists>r. findOrderedQueueInsertingIndex xs (int (length xs)) item mode = Inr r
           \<and> 0 \<le> r \<and> r \<le> int (length xs)"
proof (cases "xs = []")
  case True
  then show ?thesis by (simp add: findOrderedQueueInsertingIndex_def)
next
  case False
  define l where "l = int (length xs)"
  have pos: "0 < l" using False by (simp add: l_def)
  have "\<exists>r. findOrderedQueueInsertingIndex_loop xs l item mode (l div 2) (l div 2) 0 (l - 1) = Inr r
        \<and> 0 \<le> r \<and> r \<le> (l - 1) + 1
        \<and> (False \<longrightarrow> (\<forall>i. 0 \<le> i \<and> i < r \<longrightarrow> \<not> checkInsertBefore item (xs ! nat i) mode)
               \<and> (\<forall>i. r \<le> i \<and> i < l \<longrightarrow> checkInsertBefore item (xs ! nat i) mode))"
    by (rule loop_partition [where B = "\<lambda>i. checkInsertBefore item (xs ! nat i) mode"])
       (use pos in \<open>simp_all add: l_def\<close>)
  then show ?thesis
    using pos False by (simp add: findOrderedQueueInsertingIndex_def l_def sdiv2_nonneg)
qed

lemma in_order_nth:
  "in_order mode xs \<Longrightarrow> i < j \<Longrightarrow> j < length xs \<Longrightarrow> \<not> checkInsertBefore (xs ! j) (xs ! i) mode"
  by (simp add: in_order_def sorted_wrt_iff_nth_less)

lemma checkInsertBefore_trans:
  "checkInsertBefore a b mode \<Longrightarrow> \<not> checkInsertBefore c b mode \<Longrightarrow> checkInsertBefore a c mode"
  by (auto simp: checkInsertBefore_def split: if_splits)

lemma findOrderedQueueInsertingIndex_partition:
  fixes xs :: "'a IElement_scheme list"
  assumes ord: "in_order mode xs"
  shows "\<exists>r. findOrderedQueueInsertingIndex xs (int (length xs)) item mode = Inr (int r)
           \<and> r \<le> length xs
           \<and> (\<forall>i. i < r \<longrightarrow> \<not> checkInsertBefore item (xs ! i) mode)
           \<and> (\<forall>i. r \<le> i \<and> i < length xs \<longrightarrow> checkInsertBefore item (xs ! i) mode)"
proof (cases "xs = []")
  case True
  then show ?thesis by (simp add: findOrderedQueueInsertingIndex_def)
next
  case False
  define l where "l = int (length xs)"
  define B where "B = (\<lambda>i. checkInsertBefore item (xs ! nat i) mode)"
  have pos: "0 < l" using False by (simp add: l_def)
  have mono: "\<forall>i j. 0 \<le> i \<and> i \<le> j \<and> j < l \<and> B i \<longrightarrow> B j"
  proof (intro allI impI)
    fix i j :: int
    assume a: "0 \<le> i \<and> i \<le> j \<and> j < l \<and> B i"
    show "B j"
    proof (cases "i = j")
      case True
      then show ?thesis using a by simp
    next
      case False
      then have "nat i < nat j" "nat j < length xs" using a unfolding l_def by linarith+
      then have "\<not> checkInsertBefore (xs ! nat j) (xs ! nat i) mode"
        using ord by (simp add: in_order_nth)
      then show ?thesis using a checkInsertBefore_trans by (auto simp: B_def)
    qed
  qed
  have "\<exists>r. findOrderedQueueInsertingIndex_loop xs l item mode (l div 2) (l div 2) 0 (l - 1) = Inr r
        \<and> 0 \<le> r \<and> r \<le> (l - 1) + 1
        \<and> (True \<longrightarrow> (\<forall>i. 0 \<le> i \<and> i < r \<longrightarrow> \<not> B i) \<and> (\<forall>i. r \<le> i \<and> i < l \<longrightarrow> B i))"
  proof (rule loop_partition [where B = B])
    show "l = int (length xs)" by (simp add: l_def)
    show "True \<longrightarrow> (\<forall>i j. 0 \<le> i \<and> i \<le> j \<and> j < l \<and> B i \<longrightarrow> B j)" using mono by simp
    show "B i = checkInsertBefore item (xs ! nat i) mode" for i by (simp add: B_def)
    show "(0::int) \<le> 0" by simp
    show "l - 1 \<le> l - 1" by simp
    show "0 \<le> l - 1 + 1" using pos by simp
    show "l div 2 = (0 + (l - 1) + 1) div 2" by simp
    show "True \<longrightarrow> (\<forall>i. 0 \<le> i \<and> i < 0 \<longrightarrow> \<not> B i) \<and> (\<forall>i. l - 1 < i \<and> i < l \<longrightarrow> B i)"
      by auto
  qed
  then obtain r where r: "findOrderedQueueInsertingIndex_loop xs l item mode (l div 2) (l div 2) 0 (l - 1) = Inr r"
    "0 \<le> r" "r \<le> l" "\<forall>i. 0 \<le> i \<and> i < r \<longrightarrow> \<not> B i" "\<forall>i. r \<le> i \<and> i < l \<longrightarrow> B i"
    by auto
  have "findOrderedQueueInsertingIndex xs (int (length xs)) item mode = Inr (int (nat r))"
    using r(1,2) pos False by (simp add: findOrderedQueueInsertingIndex_def l_def sdiv2_nonneg)
  moreover have "nat r \<le> length xs" using r(2,3) by (simp add: l_def)
  moreover have "\<forall>i. i < nat r \<longrightarrow> \<not> checkInsertBefore item (xs ! i) mode"
  proof (intro allI impI)
    fix i assume "i < nat r"
    then have "0 \<le> int i \<and> int i < r" by linarith
    then have "\<not> B (int i)" using r(4) by blast
    then show "\<not> checkInsertBefore item (xs ! i) mode" by (simp add: B_def)
  qed
  moreover have "\<forall>i. nat r \<le> i \<and> i < length xs \<longrightarrow> checkInsertBefore item (xs ! i) mode"
  proof (intro allI impI)
    fix i assume "nat r \<le> i \<and> i < length xs"
    then have "r \<le> int i \<and> int i < l" using r(2) unfolding l_def by linarith
    then have "B (int i)" using r(5) by blast
    then show "checkInsertBefore item (xs ! i) mode" by (simp add: B_def)
  qed
  ultimately show ?thesis by blast
qed

lemma pushItemToOrderedQueue_at:
  fixes xs :: "'a IElement_scheme list"
  assumes "findOrderedQueueInsertingIndex xs (int (length xs)) item mode = Inr (int r)"
    and "r \<le> length xs"
  shows "pushItemToOrderedQueue xs (int (length xs)) item mode = Inr (take r xs @ [item] @ drop r xs)"
proof (cases "xs = []")
  case True
  then show ?thesis by (simp add: pushItemToOrderedQueue_def)
next
  case False
  show ?thesis
  proof (cases "r = length xs")
    case True
    then show ?thesis using assms False by (simp add: pushItemToOrderedQueue_def)
  next
    case ne: False
    then have "r < length xs" using assms(2) by simp
    then show ?thesis
      using assms False by (simp add: pushItemToOrderedQueue_def slice_from_def slice_to_def)
  qed
qed

section \<open>Properties of \<open>Add\<close>\<close>

lemma OrderedQueue_Add_at:
  fixes q :: "'a OrderedQueue"
  shows "\<exists>r. r \<le> length (queue q) \<and>
     findOrderedQueueInsertingIndex (queue q) (int (length (queue q))) item (ordering q) = Inr (int r) \<and>
     OrderedQueue_Add q item = Inr (q\<lparr>queue := take r (queue q) @ [item] @ drop r (queue q)\<rparr>)"
proof -
  obtain r where r: "findOrderedQueueInsertingIndex (queue q) (int (length (queue q))) item (ordering q) = Inr r"
      "0 \<le> r" "r \<le> int (length (queue q))"
    using findOrderedQueueInsertingIndex_range [of "queue q" item "ordering q"] by blast
  have f: "findOrderedQueueInsertingIndex (queue q) (int (length (queue q))) item (ordering q) = Inr (int (nat r))"
    using r(1,2) by simp
  have le: "nat r \<le> length (queue q)" using r(2,3) by linarith
  have "OrderedQueue_Add q item = Inr (q\<lparr>queue := take (nat r) (queue q) @ [item] @ drop (nat r) (queue q)\<rparr>)"
    using pushItemToOrderedQueue_at [OF f le] by (simp add: OrderedQueue_Add_def Let_def)
  then show ?thesis using f le by blast
qed

lemma OrderedQueue_Add_in_order:
  fixes q :: "'a OrderedQueue"
  assumes "in_order (ordering q) (queue q)"
  shows "\<exists>pre post. queue q = pre @ post \<and>
     OrderedQueue_Add q item = Inr (q\<lparr>queue := pre @ [item] @ post\<rparr>) \<and>
     (\<forall>e. e \<in> set pre \<longrightarrow> \<not> checkInsertBefore item e (ordering q)) \<and>
     (\<forall>e. e \<in> set post \<longrightarrow> checkInsertBefore item e (ordering q))"
proof -
  obtain r where r: "findOrderedQueueInsertingIndex (queue q) (int (length (queue q))) item (ordering q) = Inr (int r)"
      "r \<le> length (queue q)"
      "\<forall>i. i < r \<longrightarrow> \<not> checkInsertBefore item (queue q ! i) (ordering q)"
      "\<forall>i. r \<le> i \<and> i < length (queue q) \<longrightarrow> checkInsertBefore item (queue q ! i) (ordering q)"
    using findOrderedQueueInsertingIndex_partition [OF assms, of item] by blast
  have add: "OrderedQueue_Add q item = Inr (q\<lparr>queue := take r (queue q) @ [item] @ drop r (queue q)\<rparr>)"
    using pushItemToOrderedQueue_at [OF r(1,2)] by (simp add: OrderedQueue_Add_def Let_def)
  have pre: "\<forall>e. e \<in> set (take r (queue q)) \<longrightarrow> \<not> checkInsertBefore item e (ordering q)"
    using r(2,3) by (auto simp: in_set_conv_nth)
  have post: "\<forall>e. e \<in> set (drop r (queue q)) \<longrightarrow> checkInsertBefore item e (ordering q)"
  proof (intro allI impI)
    fix e assume "e \<in> set (drop r (queue q))"
    then obtain i where "i < length (queue q) - r" "e = queue q ! (r + i)"
      using r(2) by (auto simp: in_set_conv_nth)
    then show "checkInsertBefore item e (ordering q)" using r(4) by simp
  qed
  have "queue q = take r (queue q) @ drop r (queue q)" by simp
  then show ?thesis using add pre post by blast
qed

lemma in_order_insert:
  assumes "in_order mode (pre @ post)"
    and "\<forall>e. e \<in> set pre \<longrightarrow> \<not> checkInsertBefore item e mode"
    and "\<forall>e. e \<in> set post \<longrightarrow> checkInsertBefore item e mode"
  shows "in_order mode (pre @ [item] @ post)"
proof -
  have "\<not> checkInsertBefore e item mode" if "e \<in> set post" for e
    using assms(3) that by (auto simp: checkInsertBefore_def split: if_splits)
  then show ?thesis
    using assms(1,2) by (auto simp: in_order_def sorted_wrt_append)
qed

lemma filter_insert:
  assumes "\<forall>e. e \<in> set post \<longrightarrow> checkInsertBefore item e mode"
  shows "filter (\<lambda>e. OrderingValue e = k) (pre @ [item] @ post) =
         filter (\<lambda>e. OrderingValue e = k) (pre @ post) @ filter (\<lambda>e. OrderingValue e = k) [item]"
proof (cases "OrderingValue item = k")
  case True
  have "OrderingValue e \<noteq> k" if "e \<in> set post" for e
    using assms that True by (auto simp: checkInsertBefore_def split: if_splits)
  then have "filter (\<lambda>e. OrderingValue e = k) post = []" by (simp add: filter_empty_conv)
  then show ?thesis by simp
next
  case False
  then show ?thesis by simp
qed

lemma OrderedQueue_Add_all_append:
  "OrderedQueue_Add_all q (items @ [x]) =
     (case OrderedQueue_Add_all q items of Inl e \<Rightarrow> Inl e | Inr q' \<Rightarrow> OrderedQueue_Add q' x)"
  by (induction items arbitrary: q) (auto split: sum.splits)

lemma OrderedQueue_Add_all_in_order:
  fixes q :: "'a OrderedQueue"
  assumes "in_order (ordering q) (queue q)"
  shows "\<exists>q'. OrderedQueue_Add_all q items = Inr q' \<and> ordering q' = ordering q \<and>
     in_order (ordering q) (queue q') \<and>
     (\<forall>k. filter (\<lambda>e. OrderingValue e = k) (queue q') =
          filter (\<lambda>e. OrderingValue e = k) (queue q) @ filter (\<lambda>e. OrderingValue e = k) items)"
  using assms
proof (induction items arbitrary: q)
  case Nil
  then show ?case by simp
next
  case (Cons x items)
  obtain pre post where s: "queue q = pre @ post"
      "OrderedQueue_Add q x = Inr (q\<lparr>queue := pre @ [x] @ post\<rparr>)"
      "\<forall>e. e \<in> set pre \<longrightarrow> \<not> checkInsertBefore x e (ordering q)"
      "\<forall>e. e \<in> set post \<longrightarrow> checkInsertBefore x e (ordering q)"
    using OrderedQueue_Add_in_order [OF Cons.prems, of x] by blast
  define q1 where "q1 = q\<lparr>queue := pre @ [x] @ post\<rparr>"
  have o1: "ordering q1 = ordering q" and qq: "queue q1 = pre @ [x] @ post"
    by (simp_all add: q1_def)
  have "in_order (ordering q1) (queue q1)"
    using in_order_insert [OF _ s(3,4)] Cons.prems s(1) by (simp add: o1 qq)
  from Cons.IH [OF this] obtain q' where q': "OrderedQueue_Add_all q1 items = Inr q'"
      "ordering q' = ordering q1" "in_order (ordering q1) (queue q')"
      "\<forall>k. filter (\<lambda>e. OrderingValue e = k) (queue q') =
          filter (\<lambda>e. OrderingValue e = k) (queue q1) @ filter (\<lambda>e. OrderingValue e = k) items"
    by blast
  have "OrderedQueue_Add_all q (x # items) = Inr q'"
    using s(2) q'(1) by (simp add: q1_def)
  moreover have "filter (\<lambda>e. OrderingValue e = k) (queue q') =
      filter (\<lambda>e. OrderingValue e = k) (queue q) @ filter (\<lambda>e. OrderingValue e = k) (x # items)" for k
    using q'(4) filter_insert [OF s(4), of k pre] s(1) by (simp add: qq)
  ultimately show ?case using q'(2,3) o1 by auto
qed

section \<open>Sorted, stable insertion\<close>

lemma in_order_asc: "in_order OrderingAsc xs = sorted (map OrderingValue xs)"
  by (simp add: in_order_def checkInsertBefore_def sorted_map not_less)

lemma in_order_desc: "in_order OrderingDesc xs = sorted (rev (map OrderingValue xs))"
proof -
  have "sorted (rev (map OrderingValue xs)) = sorted_wrt (\<lambda>a b. OrderingValue b \<le> OrderingValue a) xs"
    by (simp add: sorted_wrt_rev sorted_wrt_map flip: rev_map)
  then show ?thesis
    by (simp add: in_order_def checkInsertBefore_def not_less)
qed

lemma OrderedQueue_Add_all_new:
  fixes q0 :: "'a OrderedQueue"
  assumes "queue q0 = []"
  shows "\<exists>q. OrderedQueue_Add_all q0 items = Inr q \<and> ordering q = ordering q0
      \<and> in_order (ordering q0) (OrderedQueue_Elements q)
      \<and> (\<forall>k. filter (\<lambda>e. OrderingValue e = k) (OrderedQueue_Elements q) =
              filter (\<lambda>e. OrderingValue e = k) items)
      \<and> (\<forall>x. \<exists>pre post. OrderedQueue_Elements q = pre @ post
              \<and> OrderedQueue_Add q x = Inr (q\<lparr>queue := pre @ [x] @ post\<rparr>)
              \<and> (\<forall>e. e \<in> set pre \<longrightarrow> \<not> checkInsertBefore x e (ordering q0))
              \<and> (\<forall>e. e \<in> set post \<longrightarrow> checkInsertBefore x e (ordering q0)))"
proof -
  have "in_order (ordering q0) (queue q0)" using assms by (simp add: in_order_def)
  from OrderedQueue_Add_all_in_order [OF this, of items]
  obtain q where q: "OrderedQueue_Add_all q0 items = Inr q" "ordering q = ordering q0"
      "in_order (ordering q0) (queue q)"
      "\<forall>k. filter (\<lambda>e. OrderingValue e = k) (queue q) =
          filter (\<lambda>e. OrderingValue e = k) (queue q0) @ filter (\<lambda>e. OrderingValue e = k) items"
    by blast
  have "in_order (ordering q) (queue q)" using q(2,3) by simp
  from OrderedQueue_Add_in_order [OF this]
  have "\<forall>x. \<exists>pre post. OrderedQueue_Elements q = pre @ post
              \<and> OrderedQueue_Add q x = Inr (q\<lparr>queue := pre @ [x] @ post\<rparr>)
              \<and> (\<forall>e. e \<in> set pre \<longrightarrow> \<not> checkInsertBefore x e (ordering q0))
              \<and> (\<forall>e. e \<in> set post \<longrightarrow> checkInsertBefore x e (ordering q0))"
    by (simp add: OrderedQueue_Elements_def q(2))
  then show ?thesis
    using q assms by (auto simp: OrderedQueue_Elements_def)
qed

text \<open>
  Claim C1. Whatever the elements and the order of a finite sequence of \<open>Add\<close> calls on a
  new queue, no call panics and \<open>Elements\<close> afterwards is non-decreasing in
  \<open>OrderingValue\<close> for the ascending mode and non-increasing for the descending mode; the
  elements with any one ordering value appear in the order of their insertion; and a further
  \<open>Add\<close> places the new element after every element with a smaller or an equal ordering
  value (greater or equal, for the descending mode) and before every other one.
\<close>
theorem OrderedQueue_Add_sorted_stable:
  fixes items :: "'a IElement_scheme list"
  shows
    "(\<exists>q. OrderedQueue_Add_all NewAscOrderingQueue items = Inr q
        \<and> sorted (map OrderingValue (OrderedQueue_Elements q))
        \<and> (\<forall>k. filter (\<lambda>e. OrderingValue e = k) (OrderedQueue_Elements q) =
                filter (\<lambda>e. OrderingValue e = k) items)
        \<and> (\<forall>x. \<exists>pre post. OrderedQueue_Elements q = pre @ post
                \<and> OrderedQueue_Add q x = Inr (q\<lparr>queue := pre @ [x] @ post\<rparr>)
                \<and> (\<forall>e. e \<in> set pre \<longrightarrow> OrderingValue e \<le> OrderingValue x)
                \<and> (\<forall>e. e \<in> set post \<longrightarrow> OrderingValue x < OrderingValue e)))
     \<and> (\<exists>q. OrderedQueue_Add_all NewDescOrderingQueue items = Inr q
        \<and> sorted (rev (map OrderingValue (OrderedQueue_Elements q)))
        \<and> (\<forall>k. filter (\<lambda>e. OrderingValue e = k) (OrderedQueue_Elements q) =
                filter (\<lambda>e. OrderingValue e = k) items)
        \<and> (\<forall>x. \<exists>pre post. OrderedQueue_Elements q = pre @ post
                \<and> OrderedQueue_Add q x = Inr (q\<lparr>queue := pre @ [x] @ post\<rparr>)
                \<and> (\<forall>e. e \<in> set pre \<longrightarrow> OrderingValue x \<le> OrderingValue e)
                \<and> (\<forall>e. e \<in> set post \<longrightarrow> OrderingValue e < OrderingValue x)))"
proof (rule conjI)
  have "queue (NewAscOrderingQueue :: 'a OrderedQueue) = []"
    by (simp add: NewAscOrderingQueue_def)
  from OrderedQueue_Add_all_new [OF this, of items]
  obtain q where q: "OrderedQueue_Add_all NewAscOrderingQueue items = Inr q"
      "in_order OrderingAsc (OrderedQueue_Elements q)"
      "\<forall>k. filter (\<lambda>e. OrderingValue e = k) (OrderedQueue_Elements q) =
                filter (\<lambda>e. OrderingValue e = k) items"
      "\<forall>x. \<exists>pre post. OrderedQueue_Elements q = pre @ post
              \<and> OrderedQueue_Add q x = Inr (q\<lparr>queue := pre @ [x] @ post\<rparr>)
              \<and> (\<forall>e. e \<in> set pre \<longrightarrow> \<not> checkInsertBefore x e OrderingAsc)
              \<and> (\<forall>e. e \<in> set post \<longrightarrow> checkInsertBefore x e OrderingAsc)"
    unfolding NewAscOrderingQueue_def by (auto simp del: append.simps)
  have "sorted (map OrderingValue (OrderedQueue_Elements q))"
    using q(2) by (simp add: in_order_asc)
  moreover have "\<forall>x. \<exists>pre post. OrderedQueue_Elements q = pre @ post
                \<and> OrderedQueue_Add q x = Inr (q\<lparr>queue := pre @ [x] @ post\<rparr>)
                \<and> (\<forall>e. e \<in> set pre \<longrightarrow> OrderingValue e \<le> OrderingValue x)
                \<and> (\<forall>e. e \<in> set post \<longrightarrow> OrderingValue x < OrderingValue e)"
    using q(4) by (simp add: checkInsertBefore_def not_less)
  ultimately show "\<exists>q. OrderedQueue_Add_all NewAscOrderingQueue items = Inr q
        \<and> sorted (map OrderingValue (OrderedQueue_Elements q))
        \<and> (\<forall>k. filter (\<lambda>e. OrderingValue e = k) (OrderedQueue_Elements q) =
                filter (\<lambda>e. OrderingValue e = k) items)
        \<and> (\<forall>x. \<exists>pre post. OrderedQueue_Elements q = pre @ post
                \<and> OrderedQueue_Add q x = Inr (q\<lparr>queue := pre @ [x] @ post\<rparr>)
                \<and> (\<forall>e. e \<in> set pre \<longrightarrow> OrderingValue e \<le> OrderingValue x)
                \<and> (\<forall>e. e \<in> set post \<longrightarrow> OrderingValue x < OrderingValue e))"
    using q(1,3) by (intro exI [of _ q] conjI)
next
  have "queue (NewDescOrderingQueue :: 'a OrderedQueue) = []"
    by (simp add: NewDescOrderingQueue_def)
  from OrderedQueue_Add_all_new [OF this, of items]
  obtain q where q: "OrderedQueue_Add_all NewDescOrderingQueue items = Inr q"
      "in_order OrderingDesc (OrderedQueue_Elements q)"
      "\<forall>k. filter (\<lambda>e. OrderingValue e = k) (OrderedQueue_Elements q) =
                filter (\<lambda>e. OrderingValue e = k) items"
      "\<forall>x. \<exists>pre post. OrderedQueue_Elements q = pre @ post
              \<and> OrderedQueue_Add q x = Inr (q\<lparr>queue := pre @ [x] @ post\<rparr>)
              \<and> (\<forall>e. e \<in> set pre \<longrightarrow> \<not> checkInsertBefore x e OrderingDesc)
              \<and> (\<forall>e. e \<in> set post \<longrightarrow> checkInsertBefore x e OrderingDesc)"
    unfolding NewDescOrderingQueue_def by (auto simp del: append.simps)
  have "sorted (rev (map OrderingValue (OrderedQueue_Elements q)))"
    using q(2) by (simp add: in_order_desc)
  moreover have "\<forall>x. \<exists>pre post. OrderedQueue_Elements q = pre @ post
                \<and> OrderedQueue_Add q x = Inr (q\<lparr>queue := pre @ [x] @ post\<rparr>)
                \<and> (\<forall>e. e \<in> set pre \<longrightarrow> OrderingValue x \<le> OrderingValue e)
                \<and> (\<forall>e. e \<in> set post \<longrightarrow> OrderingValue e < OrderingValue x)"
    using q(4) by (simp add: checkInsertBefore_def not_less)
  ultimately show "\<exists>q. OrderedQueue_Add_all NewDescOrderingQueue items = Inr q
        \<and> sorted (rev (map OrderingValue (OrderedQueue_Elements q)))
        \<and> (\<forall>k. filter (\<lambda>e. OrderingValue e = k) (OrderedQueue_Elements q) =
                filter (\<lambda>e. OrderingValue e = k) items)
        \<and> (\<forall>x. \<exists>pre post. OrderedQueue_Elements q = pre @ post
                \<and> OrderedQueue_Add q x = Inr (q\<lparr>queue := pre @ [x] @ post\<rparr>)
                \<and> (\<forall>e. e \<in> set pre \<longrightarrow> OrderingValue x \<le> OrderingValue e)
                \<and> (\<forall>e. e \<in> set post \<longrightarrow> OrderingValue e < OrderingValue x))"
    using q(1,3) by (intro exI [of _ q] conjI)
qed

theorem OrderedQueue_Add_sorted_stable_witness:
  "OrderedQueue_Add_all NewAscOrderingQueue
     [\<lparr>GetID = ''a'', OrderingValue = 5\<rparr>, \<lparr>GetID = ''b'', OrderingValue = 1\<rparr>,
      \<lparr>GetID = ''c'', OrderingValue = 3\<rparr>, \<lparr>GetID = ''d'', OrderingValue = 3\<rparr>]
     = Inr \<lparr>queue = [\<lparr>GetID = ''b'', OrderingValue = 1\<rparr>, \<lparr>GetID = ''c'', OrderingValue = 3\<rparr>,
                     \<lparr>GetID = ''d'', OrderingValue = 3\<rparr>, \<lparr>GetID = ''a'', OrderingValue = 5\<rparr>],
            ordering = OrderingAsc\<rparr>
   \<and> sorted (map OrderingValue
        [\<lparr>GetID = ''b'', OrderingValue = 1\<rparr>, \<lparr>GetID = ''c'', OrderingValue = 3\<rparr>,
         \<lparr>GetID = ''d'', OrderingValue = 3\<rparr>, \<lparr>GetID = ''a'', OrderingValue = 5\<rparr>])
   \<and> filter (\<lambda>e. OrderingValue e = 3)
        [\<lparr>GetID = ''b'', OrderingValue = 1\<rparr>, \<lparr>GetID = ''c'', OrderingValue = 3\<rparr>,
         \<lparr>GetID = ''d'', OrderingValue = 3\<rparr>, \<lparr>GetID = ''a'', OrderingValue = 5\<rparr>]
     = [\<lparr>GetID = ''c'', OrderingValue = 3\<rparr>, \<lparr>GetID = ''d'', OrderingValue = 3\<rparr>]"
proof -
  let ?items = "[\<lparr>GetID = ''a'', OrderingValue = 5\<rparr>, \<lparr>GetID = ''b'', OrderingValue = 1\<rparr>,
      \<lparr>GetID = ''c'', OrderingValue = 3\<rparr>, \<lparr>GetID = ''d'', OrderingValue = 3\<rparr>]"
  let ?sorted = "[\<lparr>GetID = ''b'', OrderingValue = 1\<rparr>, \<lparr>GetID = ''c'', OrderingValue = 3\<rparr>,
      \<lparr>GetID = ''d'', OrderingValue = 3\<rparr>, \<lparr>GetID = ''a'', OrderingValue = 5\<rparr>]"
  have run: "OrderedQueue_Add_all NewAscOrderingQueue ?items
      = Inr \<lparr>queue = ?sorted, ordering = OrderingAsc\<rparr>"
    by code_simp
  from OrderedQueue_Add_sorted_stable [of ?items]
  obtain q where q: "OrderedQueue_Add_all NewAscOrderingQueue ?items = Inr q"
      "sorted (map OrderingValue (OrderedQueue_Elements q))"
      "\<forall>k. filter (\<lambda>e. OrderingValue e = k) (OrderedQueue_Elements q) =
           filter (\<lambda>e. OrderingValue e = k) ?items"
    by blast
  have "q = \<lparr>queue = ?sorted, ordering = OrderingAsc\<rparr>"
    using run q(1) by simp
  then have el: "OrderedQueue_Elements q = ?sorted"
    by (simp add: OrderedQueue_Elements_def)
  have "filter (\<lambda>e. OrderingValue e = 3) ?sorted = filter (\<lambda>e. OrderingValue e = 3) ?items"
    using q(3) el by metis
  then show ?thesis using run q(2) el by simp
qed

section \<open>\<open>PopMany\<close>\<close>

declare PopMany_loop.simps [simp del]

lemma PopMany_loop_take:
  "0 \<le> i \<Longrightarrow> i \<le> maxLen \<Longrightarrow> maxLen \<le> int (length xs) \<Longrightarrow>
   PopMany_loop xs maxLen i items = Inr (items @ take (nat (maxLen - i)) (drop (nat i) xs))"
proof (induction xs maxLen i items rule: PopMany_loop.induct)
  case (1 xs maxLen i items)
  show ?case
  proof (cases "i < maxLen")
    case False
    then show ?thesis using 1(3) by (subst PopMany_loop.simps) simp
  next
    case True
    then have ix: "index xs i = Inr (xs ! nat i)"
      using 1(2,4) by (simp add: index_def)
    have "PopMany_loop xs maxLen (i + 1) (items @ [xs ! nat i]) =
        Inr ((items @ [xs ! nat i]) @ take (nat (maxLen - (i + 1))) (drop (nat (i + 1)) xs))"
      using 1(1) [OF True ix] 1(2,4) True by simp
    moreover have "take (nat (maxLen - i)) (drop (nat i) xs) =
        xs ! nat i # take (nat (maxLen - (i + 1))) (drop (nat (i + 1)) xs)"
    proof -
      have a: "nat (maxLen - i) = Suc (nat (maxLen - (i + 1)))" using True by simp
      have b: "nat (i + 1) = Suc (nat i)" using 1(2) by simp
      have c: "nat i < length xs" using True 1(2,4) by simp
      show ?thesis by (simp add: a b Cons_nth_drop_Suc [OF c, symmetric])
    qed
    ultimately show ?thesis
      using True ix by (subst PopMany_loop.simps) simp
  qed
qed

lemma OrderedQueue_PopMany_eq:
  "OrderedQueue_PopMany q maxResults =
     (if maxResults \<le> 0 \<or> queue q = [] then Inr ((None, 0), q)
      else Inr ((Some (take (nat (min maxResults (int (length (queue q))))) (queue q)),
                 min maxResults (int (length (queue q)))),
                q\<lparr>queue := drop (nat (min maxResults (int (length (queue q))))) (queue q)\<rparr>))"
proof (cases "maxResults \<le> 0 \<or> queue q = []")
  case True
  then show ?thesis by (auto simp: OrderedQueue_PopMany_def)
next
  case False
  define k where "k = min maxResults (int (length (queue q)))"
  have k: "0 \<le> k" "k \<le> int (length (queue q))" using False by (simp_all add: k_def)
  have sel: "(if int (length (queue q)) > maxResults then maxResults else int (length (queue q))) = k"
    by (simp add: k_def min_def)
  have loop: "PopMany_loop (queue q) k 0 [] = Inr (take (nat k) (queue q))"
    using PopMany_loop_take [of 0 k "queue q" "[]"] k by simp
  have "OrderedQueue_PopMany q maxResults =
      Inr ((Some (take (nat k) (queue q)), k), q\<lparr>queue := drop (nat k) (queue q)\<rparr>)"
    using False k by (simp add: OrderedQueue_PopMany_def sel loop slice_from_def del: PopMany_loop.simps)
  then show ?thesis using False by (simp add: k_def)
qed

lemma FIFOQueue_PopMany_eq:
  "FIFOQueue_PopMany f maxResults =
     (if maxResults \<le> 0 \<or> FIFOQueue.queue f = [] then Inr ((None, 0), f)
      else Inr ((Some (take (nat (min maxResults (int (length (FIFOQueue.queue f))))) (FIFOQueue.queue f)),
                 min maxResults (int (length (FIFOQueue.queue f)))),
                f\<lparr>FIFOQueue.queue := drop (nat (min maxResults (int (length (FIFOQueue.queue f))))) (FIFOQueue.queue f)\<rparr>))"
proof (cases "maxResults \<le> 0 \<or> FIFOQueue.queue f = []")
  case True
  then show ?thesis by (auto simp: FIFOQueue_PopMany_def)
next
  case False
  define k where "k = min maxResults (int (length (FIFOQueue.queue f)))"
  have k: "0 \<le> k" "k \<le> int (length (FIFOQueue.queue f))" using False by (simp_all add: k_def)
  have sel: "(if int (length (FIFOQueue.queue f)) > maxResults then maxResults
              else int (length (FIFOQueue.queue f))) = k"
    by (simp add: k_def min_def)
  have loop: "PopMany_loop (FIFOQueue.queue f) k 0 [] = Inr (take (nat k) (FIFOQueue.queue f))"
    using PopMany_loop_take [of 0 k "FIFOQueue.queue f" "[]"] k by simp
  have "FIFOQueue_PopMany f maxResults =
      Inr ((Some (take (nat k) (FIFOQueue.queue f)), k), f\<lparr>FIFOQueue.queue := drop (nat k) (FIFOQueue.queue f)\<rparr>)"
    using False k by (simp add: FIFOQueue_PopMany_def sel loop slice_from_def)
  then show ?thesis using False by (simp add: k_def)
qed

text \<open>
  Claim C8. \<open>PopMany\<close> of either queue returns \<open>(nil, 0)\<close> and leaves the queue as it is
  when \<open>maxResults \<le> 0\<close> or the queue is empty; otherwise it returns the first
  \<open>min maxResults size\<close> elements in queue order with that count, leaves the rest in the
  queue, and does not panic, also when \<open>maxResults\<close> exceeds the size.
\<close>

theorem PopMany_clamps:
  fixes q :: "'a OrderedQueue" and f :: "'b FIFOQueue"
  shows
    "OrderedQueue_PopMany q maxResults =
       (if maxResults \<le> 0 \<or> queue q = [] then Inr ((None, 0), q)
        else Inr ((Some (take (nat (min maxResults (int (length (queue q))))) (queue q)),
                   min maxResults (int (length (queue q)))),
                  q\<lparr>queue := drop (nat (min maxResults (int (length (queue q))))) (queue q)\<rparr>))
     \<and> FIFOQueue_PopMany f maxResults =
       (if maxResults \<le> 0 \<or> FIFOQueue.queue f = [] then Inr ((None, 0), f)
        else Inr ((Some (take (nat (min maxResults (int (length (FIFOQueue.queue f)))))
                          (FIFOQueue.queue f)),
                   min maxResults (int (length (FIFOQueue.queue f)))),
                  f\<lparr>FIFOQueue.queue :=
                      drop (nat (min maxResults (int (length (FIFOQueue.queue f)))))
                        (FIFOQueue.queue f)\<rparr>))"
  using OrderedQueue_PopMany_eq [of q maxResults] FIFOQueue_PopMany_eq [of f maxResults]
  by (rule conjI)

theorem PopMany_clamps_witness:
  "OrderedQueue_PopMany
     \<lparr>queue = [\<lparr>GetID = ''a'', OrderingValue = 1\<rparr>, \<lparr>GetID = ''b'', OrderingValue = 2\<rparr>],
      ordering = OrderingAsc\<rparr> 5
     = Inr ((Some [\<lparr>GetID = ''a'', OrderingValue = 1\<rparr>, \<lparr>GetID = ''b'', OrderingValue = 2\<rparr>], 2),
            \<lparr>queue = [], ordering = OrderingAsc\<rparr>)
   \<and> FIFOQueue_PopMany
     \<lparr>FIFOQueue.queue = [\<lparr>GetID = ''a'', OrderingValue = 1\<rparr>, \<lparr>GetID = ''b'', OrderingValue = 2\<rparr>]\<rparr> 1
     = Inr ((Some [\<lparr>GetID = ''a'', OrderingValue = 1\<rparr>], 1),
            \<lparr>FIFOQueue.queue = [\<lparr>GetID = ''b'', OrderingValue = 2\<rparr>]\<rparr>)"
  using PopMany_clamps [of
      "\<lparr>queue = [\<lparr>GetID = ''a'', OrderingValue = 1\<rparr>, \<lparr>GetID = ''b'', OrderingValue = 2\<rparr>],
        ordering = OrderingAsc\<rparr>" 5
      "\<lparr>FIFOQueue.queue = [\<lparr>GetID = ''a'', OrderingValue = 1\<rparr>, \<lparr>GetID = ''b'', OrderingValue = 2\<rparr>]\<rparr>"]
    PopMany_clamps [of
      "\<lparr>queue = [\<lparr>GetID = ''a'', OrderingValue = 1\<rparr>, \<lparr>GetID = ''b'', OrderingValue = 2\<rparr>],
        ordering = OrderingAsc\<rparr>" 1
      "\<lparr>FIFOQueue.queue = [\<lparr>GetID = ''a'', OrderingValue = 1\<rparr>, \<lparr>GetID = ''b'', OrderingValue = 2\<rparr>]\<rparr>"]
  by simp

section \<open>\<open>CutBefore\<close> and \<open>CutAfter\<close>\<close>

lemma OrderedQueue_CutBefore_eq:
  "OrderedQueue_CutBefore q idx =
     (if idx < 0 then Inr ([], q)
      else if idx \<le> int (length (queue q)) then Inr (queue q, q\<lparr>queue := []\<rparr>)
      else Inl SliceBoundsOutOfRange)"
  by (simp add: OrderedQueue_CutBefore_def slice_to_def)

lemma FIFOQueue_CutBefore_eq:
  "FIFOQueue_CutBefore f idx =
     (if idx < 0 then Inr ([], f)
      else if idx \<le> int (length (FIFOQueue.queue f)) then Inr (FIFOQueue.queue f, f\<lparr>FIFOQueue.queue := []\<rparr>)
      else Inl SliceBoundsOutOfRange)"
  by (simp add: FIFOQueue_CutBefore_def slice_to_def)

lemma OrderedQueue_CutAfter_eq:
  "OrderedQueue_CutAfter q idx =
     (if idx < 0 then Inr (queue q, q\<lparr>queue := []\<rparr>)
      else if idx \<le> int (length (queue q)) then Inr ([], q)
      else Inl SliceBoundsOutOfRange)"
  by (simp add: OrderedQueue_CutAfter_def slice_from_def)

lemma FIFOQueue_CutAfter_eq:
  "FIFOQueue_CutAfter f idx =
     (if idx < 0 then Inr (FIFOQueue.queue f, f\<lparr>FIFOQueue.queue := []\<rparr>)
      else if idx \<le> int (length (FIFOQueue.queue f)) then Inr ([], f)
      else Inl SliceBoundsOutOfRange)"
  by (simp add: FIFOQueue_CutAfter_def slice_from_def)

text \<open>
  Claim C2. \<open>CutBefore(i)\<close> should remove and return exactly the elements at positions
  below \<open>i\<close>, cut everything when \<open>i\<close> is beyond the end, and never panic. The code
  compares \<open>len(q.queue) >= idx\<close> where the claim needs \<open><=\<close>: on the queue
  \<open>a, b, c\<close>, \<open>CutBefore(1)\<close> of either queue returns all three elements and leaves the
  queue empty, and \<open>CutBefore(4)\<close> panics with a slice bound out of range.
\<close>

theorem CutBefore_failing_input:
  "OrderedQueue_CutBefore
     \<lparr>queue = [\<lparr>GetID = ''a'', OrderingValue = 1\<rparr>, \<lparr>GetID = ''b'', OrderingValue = 2\<rparr>,
               \<lparr>GetID = ''c'', OrderingValue = 3\<rparr>], ordering = OrderingAsc\<rparr> 1
     = Inr ([\<lparr>GetID = ''a'', OrderingValue = 1\<rparr>, \<lparr>GetID = ''b'', OrderingValue = 2\<rparr>,
             \<lparr>GetID = ''c'', OrderingValue = 3\<rparr>], \<lparr>queue = [], ordering = OrderingAsc\<rparr>)
   \<and> OrderedQueue_CutBefore
     \<lparr>queue = [\<lparr>GetID = ''a'', OrderingValue = 1\<rparr>, \<lparr>GetID = ''b'', OrderingValue = 2\<rparr>,
               \<lparr>GetID = ''c'', OrderingValue = 3\<rparr>], ordering = OrderingAsc\<rparr> 4
     = Inl SliceBoundsOutOfRange
   \<and> FIFOQueue_CutBefore
     \<lparr>FIFOQueue.queue = [\<lparr>GetID = ''a'', OrderingValue = 1\<rparr>, \<lparr>GetID = ''b'', OrderingValue = 2\<rparr>,
               \<lparr>GetID = ''c'', OrderingValue = 3\<rparr>]\<rparr> 1
     = Inr ([\<lparr>GetID = ''a'', OrderingValue = 1\<rparr>, \<lparr>GetID = ''b'', OrderingValue = 2\<rparr>,
             \<lparr>GetID = ''c'', OrderingValue = 3\<rparr>], \<lparr>FIFOQueue.queue = []\<rparr>)
   \<and> FIFOQueue_CutBefore
     \<lparr>FIFOQueue.queue = [\<lparr>GetID = ''a'', OrderingValue = 1\<rparr>, \<lparr>GetID = ''b'', OrderingValue = 2\<rparr>,
               \<lparr>GetID = ''c'', OrderingValue = 3\<rparr>]\<rparr> 4
     = Inl SliceBoundsOutOfRange"
  by (simp add: OrderedQueue_CutBefore_def FIFOQueue_CutBefore_def slice_to_def slice_from_def)

text \<open>
  Claim C3, as stated: a negative index would yield an empty cut and no mutation. On the
  queue \<open>a, b\<close>, \<open>CutAfter(-1)\<close> of either queue returns both elements and leaves the
  queue empty.
\<close>

theorem CutAfter_negative_counterexample:
  "OrderedQueue_CutAfter
     \<lparr>queue = [\<lparr>GetID = ''a'', OrderingValue = 1\<rparr>, \<lparr>GetID = ''b'', OrderingValue = 2\<rparr>],
      ordering = OrderingAsc\<rparr> (- 1)
     = Inr ([\<lparr>GetID = ''a'', OrderingValue = 1\<rparr>, \<lparr>GetID = ''b'', OrderingValue = 2\<rparr>],
            \<lparr>queue = [], ordering = OrderingAsc\<rparr>)
   \<and> OrderedQueue_CutAfter
     \<lparr>queue = [\<lparr>GetID = ''a'', OrderingValue = 1\<rparr>, \<lparr>GetID = ''b'', OrderingValue = 2\<rparr>],
      ordering = OrderingAsc\<rparr> (- 1)
     \<noteq> Inr ([], \<lparr>queue = [\<lparr>GetID = ''a'', OrderingValue = 1\<rparr>, \<lparr>GetID = ''b'', OrderingValue = 2\<rparr>],
                 ordering = OrderingAsc\<rparr>)
   \<and> FIFOQueue_CutAfter
     \<lparr>FIFOQueue.queue = [\<lparr>GetID = ''a'', OrderingValue = 1\<rparr>, \<lparr>GetID = ''b'', OrderingValue = 2\<rparr>]\<rparr>
       (- 1)
     = Inr ([\<lparr>GetID = ''a'', OrderingValue = 1\<rparr>, \<lparr>GetID = ''b'', OrderingValue = 2\<rparr>],
            \<lparr>FIFOQueue.queue = []\<rparr>)"
  by (simp add: OrderedQueue_CutAfter_def FIFOQueue_CutAfter_def)

text \<open>
  Claim C3, amended. For a negative index \<open>CutAfter\<close> of either queue removes and returns
  the whole contents (every position is above the index) and leaves the queue empty; for the
  index of the last position and for the index equal to the length it returns an empty cut
  and leaves the queue as it is. In these cases it returns exactly the elements at the
  positions above the index, leaves the positions up to the index in place, and does not
  panic.
\<close>

theorem CutAfter_amended:
  fixes q :: "'a OrderedQueue" and f :: "'b FIFOQueue"
  shows
    "(idx < 0 \<or> int (length (queue q)) - 1 \<le> idx \<and> idx \<le> int (length (queue q)) \<longrightarrow>
        OrderedQueue_CutAfter q idx =
          Inr (drop (nat (idx + 1)) (queue q), q\<lparr>queue := take (nat (idx + 1)) (queue q)\<rparr>)
        \<and> OrderedQueue_CutAfter q idx =
          (if idx < 0 then Inr (queue q, q\<lparr>queue := []\<rparr>) else Inr ([], q)))
     \<and> (idx < 0 \<or> int (length (FIFOQueue.queue f)) - 1 \<le> idx
              \<and> idx \<le> int (length (FIFOQueue.queue f)) \<longrightarrow>
        FIFOQueue_CutAfter f idx =
          Inr (drop (nat (idx + 1)) (FIFOQueue.queue f),
               f\<lparr>FIFOQueue.queue := take (nat (idx + 1)) (FIFOQueue.queue f)\<rparr>)
        \<and> FIFOQueue_CutAfter f idx =
          (if idx < 0 then Inr (FIFOQueue.queue f, f\<lparr>FIFOQueue.queue := []\<rparr>) else Inr ([], f)))"
proof (intro conjI impI)
  assume a: "idx < 0 \<or> int (length (queue q)) - 1 \<le> idx \<and> idx \<le> int (length (queue q))"
  show "OrderedQueue_CutAfter q idx =
          (if idx < 0 then Inr (queue q, q\<lparr>queue := []\<rparr>) else Inr ([], q))"
    using a by (auto simp: OrderedQueue_CutAfter_eq)
  show "OrderedQueue_CutAfter q idx =
          Inr (drop (nat (idx + 1)) (queue q), q\<lparr>queue := take (nat (idx + 1)) (queue q)\<rparr>)"
  proof (cases "idx < 0")
    case True
    then have "nat (idx + 1) = 0" by simp
    then show ?thesis using True by (simp add: OrderedQueue_CutAfter_eq)
  next
    case False
    then have "length (queue q) \<le> nat (idx + 1)" using a by linarith
    then show ?thesis using False a by (simp add: OrderedQueue_CutAfter_eq)
  qed
next
  assume a: "idx < 0 \<or> int (length (FIFOQueue.queue f)) - 1 \<le> idx
              \<and> idx \<le> int (length (FIFOQueue.queue f))"
  show "FIFOQueue_CutAfter f idx =
          (if idx < 0 then Inr (FIFOQueue.queue f, f\<lparr>FIFOQueue.queue := []\<rparr>) else Inr ([], f))"
    using a by (auto simp: FIFOQueue_CutAfter_eq)
  show "FIFOQueue_CutAfter f idx =
          Inr (drop (nat (idx + 1)) (FIFOQueue.queue f),
               f\<lparr>FIFOQueue.queue := take (nat (idx + 1)) (FIFOQueue.queue f)\<rparr>)"
  proof (cases "idx < 0")
    case True
    then have "nat (idx + 1) = 0" by simp
    then show ?thesis using True by (simp add: FIFOQueue_CutAfter_eq)
  next
    case False
    then have "length (FIFOQueue.queue f) \<le> nat (idx + 1)" using a by linarith
    then show ?thesis using False a by (simp add: FIFOQueue_CutAfter_eq)
  qed
qed

theorem CutAfter_amended_witness:
  "OrderedQueue_CutAfter
     \<lparr>queue = [\<lparr>GetID = ''a'', OrderingValue = 1\<rparr>, \<lparr>GetID = ''b'', OrderingValue = 2\<rparr>],
      ordering = OrderingAsc\<rparr> 1
     = Inr ([], \<lparr>queue = [\<lparr>GetID = ''a'', OrderingValue = 1\<rparr>, \<lparr>GetID = ''b'', OrderingValue = 2\<rparr>],
                 ordering = OrderingAsc\<rparr>)
   \<and> FIFOQueue_CutAfter
     \<lparr>FIFOQueue.queue = [\<lparr>GetID = ''a'', OrderingValue = 1\<rparr>, \<lparr>GetID = ''b'', OrderingValue = 2\<rparr>]\<rparr>
       (- 3)
     = Inr ([\<lparr>GetID = ''a'', OrderingValue = 1\<rparr>, \<lparr>GetID = ''b'', OrderingValue = 2\<rparr>],
            \<lparr>FIFOQueue.queue = []\<rparr>)"
  using CutAfter_amended [of 1
      "\<lparr>queue = [\<lparr>GetID = ''a'', OrderingValue = 1\<rparr>, \<lparr>GetID = ''b'', OrderingValue = 2\<rparr>],
        ordering = OrderingAsc\<rparr>"
      "\<lparr>FIFOQueue.queue = [\<lparr>GetID = ''a'', OrderingValue = 1\<rparr>, \<lparr>GetID = ''b'', OrderingValue = 2\<rparr>]\<rparr>"]
    CutAfter_amended [of "- 3"
      "\<lparr>queue = [\<lparr>GetID = ''a'', OrderingValue = 1\<rparr>, \<lparr>GetID = ''b'', OrderingValue = 2\<rparr>],
        ordering = OrderingAsc\<rparr>"
      "\<lparr>FIFOQueue.queue = [\<lparr>GetID = ''a'', OrderingValue = 1\<rparr>, \<lparr>GetID = ''b'', OrderingValue = 2\<rparr>]\<rparr>"]
  by simp

section \<open>Lookup by identity in the ordered queue\<close>

declare findElementIndex_forward.simps [simp del]
declare findElementIndex_backward.simps [simp del]

lemma findElementIndex_forward_find:
  "0 \<le> c \<Longrightarrow> mx \<le> int (length xs) \<Longrightarrow>
   findElementIndex_forward xs item c mx =
     Inr (find (\<lambda>i. GetID item = GetID (xs ! nat i)) [c..mx - 1])"
proof (induction xs item c mx rule: findElementIndex_forward.induct)
  case (1 xs item c mx)
  show ?case
  proof (cases "c < mx")
    case False
    then show ?thesis by (subst findElementIndex_forward.simps) simp
  next
    case True
    then have ix: "index xs c = Inr (xs ! nat c)"
      using 1(2,3) by (simp add: index_def)
    have up: "[c..mx - 1] = c # [c + 1..mx - 1]"
      using True by (simp add: upto_rec1)
    show ?thesis
    proof (cases "GetID item = GetID (xs ! nat c)")
      case True
      then show ?thesis
        using \<open>c < mx\<close> ix up by (subst findElementIndex_forward.simps) simp
    next
      case False
      have "findElementIndex_forward xs item (c + 1) mx =
          Inr (find (\<lambda>i. GetID item = GetID (xs ! nat i)) [c + 1..mx - 1])"
        using 1(1) [OF \<open>c < mx\<close> ix False] 1(2,3) by simp
      then show ?thesis
        using \<open>c < mx\<close> ix up False by (subst findElementIndex_forward.simps) simp
    qed
  qed
qed

lemma findElementIndex_backward_find:
  "- 1 \<le> mn \<Longrightarrow> c < int (length xs) \<Longrightarrow>
   findElementIndex_backward xs item c mn =
     Inr (find (\<lambda>i. GetID item = GetID (xs ! nat i)) (rev [mn + 1..c]))"
proof (induction xs item c mn rule: findElementIndex_backward.induct)
  case (1 xs item c mn)
  show ?case
  proof (cases "c > mn")
    case False
    then show ?thesis by (subst findElementIndex_backward.simps) simp
  next
    case True
    then have ix: "index xs c = Inr (xs ! nat c)"
      using 1(2,3) by (simp add: index_def)
    have up: "rev [mn + 1..c] = c # rev [mn + 1..c - 1]"
      using True by (simp add: upto_rec2)
    show ?thesis
    proof (cases "GetID item = GetID (xs ! nat c)")
      case True
      then show ?thesis
        using \<open>c > mn\<close> ix up by (subst findElementIndex_backward.simps) simp
    next
      case False
      have "findElementIndex_backward xs item (c - 1) mn =
          Inr (find (\<lambda>i. GetID item = GetID (xs ! nat i)) (rev [mn + 1..c - 1]))"
        using 1(1) [OF \<open>c > mn\<close> ix False] 1(2,3) by simp
      then show ?thesis
        using \<open>c > mn\<close> ix up False by (subst findElementIndex_backward.simps) simp
    qed
  qed
qed

lemma find_over_append:
  "find P (xs @ ys) = (case find P xs of None \<Rightarrow> find P ys | Some x \<Rightarrow> Some x)"
  by (induction xs) auto

lemma scanned_positions_eq:
  assumes "0 \<le> r" "r \<le> l"
  shows "[r..(if r + 2 > l then l else r + 2) - 1]
           @ rev [(if - 1 > r - 2 then - 1 else r - 2) + 1..r - 1] = scanned_positions r l"
proof -
  have f: "[r..(if r + 2 > l then l else r + 2) - 1] = filter (\<lambda>c. 0 \<le> c \<and> c < l) [r, r + 1]"
  proof -
    consider "r = l" | "r = l - 1" | "r + 2 \<le> l" using assms(2) by linarith
    then show ?thesis
    proof cases
      case 1
      then show ?thesis using assms(1) by simp
    next
      case 2
      then show ?thesis using assms(1) by (simp add: upto_rec1)
    next
      case 3
      then show ?thesis using assms(1) by (simp add: upto_rec1)
    qed
  qed
  have b: "rev [(if - 1 > r - 2 then - 1 else r - 2) + 1..r - 1] = filter (\<lambda>c. 0 \<le> c \<and> c < l) [r - 1]"
  proof (cases "r = 0")
    case True
    then show ?thesis by simp
  next
    case False
    then have "1 \<le> r" using assms(1) by simp
    then show ?thesis using assms(2) by (simp add: upto_rec1)
  qed
  show ?thesis by (simp only: f b scanned_positions_def filter_append [symmetric]) simp
qed

lemma OrderedQueue_findElementIndex_scan:
  fixes q :: "'a OrderedQueue"
  shows "\<exists>idx. findOrderedQueueInsertingIndex (queue q) (int (length (queue q))) item (ordering q) = Inr idx
      \<and> 0 \<le> idx \<and> idx \<le> int (length (queue q))
      \<and> OrderedQueue_findElementIndex q item =
          Inr (case find (\<lambda>c. GetID item = GetID (queue q ! nat c))
                      (scanned_positions idx (int (length (queue q)))) of
                 None \<Rightarrow> - 1 | Some c \<Rightarrow> c)"
proof -
  define l where "l = int (length (queue q))"
  obtain r where r: "findOrderedQueueInsertingIndex (queue q) l item (ordering q) = Inr r"
      "0 \<le> r" "r \<le> l"
    using findOrderedQueueInsertingIndex_range [of "queue q" item "ordering q"] l_def by blast
  let ?P = "\<lambda>c. GetID item = GetID (queue q ! nat c)"
  have "OrderedQueue_findElementIndex q item =
      Inr (case find ?P (scanned_positions r l) of None \<Rightarrow> - 1 | Some c \<Rightarrow> c)"
  proof (cases "0 \<ge> l")
    case True
    then have "l = 0" using l_def by simp
    then have "scanned_positions r l = []" by (simp add: scanned_positions_def)
    then show ?thesis using True by (simp add: OrderedQueue_findElementIndex_def l_def [symmetric])
  next
    case False
    define mx where "mx = (if r + 2 > l then l else r + 2)"
    define mn where "mn = (if - 1 > r - 2 then - 1 else r - 2)"
    have fw: "findElementIndex_forward (queue q) item r mx = Inr (find ?P [r..mx - 1])"
      using findElementIndex_forward_find [of r mx "queue q" item] r(2) by (simp add: mx_def l_def)
    have bw: "findElementIndex_backward (queue q) item (r - 1) mn = Inr (find ?P (rev [mn + 1..r - 1]))"
      using findElementIndex_backward_find [of mn "r - 1" "queue q" item] r(3)
      by (simp add: mn_def l_def)
    have sc: "[r..mx - 1] @ rev [mn + 1..r - 1] = scanned_positions r l"
      using scanned_positions_eq [OF r(2,3)] by (simp add: mx_def mn_def)
    have "OrderedQueue_findElementIndex q item =
        (case findElementIndex_forward (queue q) item r mx of
           Inl e \<Rightarrow> Inl e
         | Inr (Some found) \<Rightarrow> Inr found
         | Inr None \<Rightarrow>
             (case findElementIndex_backward (queue q) item (r - 1) mn of
                Inl e \<Rightarrow> Inl e
              | Inr (Some found) \<Rightarrow> Inr found
              | Inr None \<Rightarrow> Inr (- 1)))"
      unfolding OrderedQueue_findElementIndex_def Let_def l_def [symmetric] mx_def mn_def
      using False r(1) by simp
    also have "\<dots> =
        (case find ?P [r..mx - 1] of
           Some found \<Rightarrow> Inr found
         | None \<Rightarrow> (case find ?P (rev [mn + 1..r - 1]) of Some found \<Rightarrow> Inr found | None \<Rightarrow> Inr (- 1)))"
      unfolding fw bw by (simp split: option.splits)
    also have "\<dots> = Inr (case find ?P ([r..mx - 1] @ rev [mn + 1..r - 1]) of None \<Rightarrow> - 1 | Some c \<Rightarrow> c)"
      by (simp add: find_over_append split: option.splits)
    finally show ?thesis by (simp only: sc)
  qed
  then show ?thesis using r by (auto simp: l_def)
qed

lemma OrderedQueue_Remove_scan:
  fixes q :: "'a OrderedQueue"
  shows "\<exists>idx. findOrderedQueueInsertingIndex (queue q) (int (length (queue q))) item (ordering q) = Inr idx
      \<and> OrderedQueue_Remove q item =
          (case find (\<lambda>c. GetID item = GetID (queue q ! nat c))
                  (scanned_positions idx (int (length (queue q)))) of
             None \<Rightarrow> Inr (False, q)
           | Some c \<Rightarrow> Inr (True, q\<lparr>queue := take (nat c) (queue q) @ drop (nat c + 1) (queue q)\<rparr>))"
proof -
  let ?P = "\<lambda>c. GetID item = GetID (queue q ! nat c)"
  obtain idx where idx:
      "findOrderedQueueInsertingIndex (queue q) (int (length (queue q))) item (ordering q) = Inr idx"
      "OrderedQueue_findElementIndex q item =
          Inr (case find ?P (scanned_positions idx (int (length (queue q)))) of
                 None \<Rightarrow> - 1 | Some c \<Rightarrow> c)"
    using OrderedQueue_findElementIndex_scan [of q item] by blast
  have "OrderedQueue_Remove q item =
          (case find ?P (scanned_positions idx (int (length (queue q)))) of
             None \<Rightarrow> Inr (False, q)
           | Some c \<Rightarrow> Inr (True, q\<lparr>queue := take (nat c) (queue q) @ drop (nat c + 1) (queue q)\<rparr>))"
  proof (cases "find ?P (scanned_positions idx (int (length (queue q))))")
    case None
    then show ?thesis using idx(2) by (simp add: OrderedQueue_Remove_def)
  next
    case (Some c)
    then have "c \<in> set (scanned_positions idx (int (length (queue q))))"
      by (auto simp: find_Some_iff in_set_conv_nth)
    then have c: "0 \<le> c" "c < int (length (queue q))"
      by (auto simp: scanned_positions_def split: if_splits)
    have "nat (c + 1) = nat c + 1" using c(1) by simp
    then show ?thesis
      using Some idx(2) c by (simp add: OrderedQueue_Remove_def slice_to_def slice_from_def)
  qed
  then show ?thesis using idx(1) by blast
qed

lemma OrderedQueue_GetOne_scan:
  fixes q :: "'a OrderedQueue"
  shows "\<exists>idx. findOrderedQueueInsertingIndex (queue q) (int (length (queue q))) item (ordering q) = Inr idx
      \<and> OrderedQueue_GetOne q item =
          Inr (item, find (\<lambda>c. GetID item = GetID (queue q ! nat c))
                       (scanned_positions idx (int (length (queue q)))) \<noteq> None)"
proof -
  let ?P = "\<lambda>c. GetID item = GetID (queue q ! nat c)"
  obtain idx where idx:
      "findOrderedQueueInsertingIndex (queue q) (int (length (queue q))) item (ordering q) = Inr idx"
      "OrderedQueue_findElementIndex q item =
          Inr (case find ?P (scanned_positions idx (int (length (queue q)))) of
                 None \<Rightarrow> - 1 | Some c \<Rightarrow> c)"
    using OrderedQueue_findElementIndex_scan [of q item] by blast
  have "OrderedQueue_GetOne q item =
      Inr (item, find ?P (scanned_positions idx (int (length (queue q)))) \<noteq> None)"
  proof (cases "find ?P (scanned_positions idx (int (length (queue q))))")
    case None
    then show ?thesis using idx(2) by (simp add: OrderedQueue_GetOne_def)
  next
    case (Some c)
    then have "c \<in> set (scanned_positions idx (int (length (queue q))))"
      by (auto simp: find_Some_iff in_set_conv_nth)
    then have c: "0 \<le> c"
      by (auto simp: scanned_positions_def split: if_splits)
    then show ?thesis
      using Some idx(2) by (simp add: OrderedQueue_GetOne_def)
  qed
  then show ?thesis using idx(1) by blast
qed

text \<open>
  Claim C4, as stated: identities would be compared at the positions from two before to two
  after the estimate. In the queue \<open>a, b, c\<close> of three elements with ordering value 1 the
  estimate for \<open>b\<close> is 3, \<open>b\<close> is at position 1, two before the estimate and inside the
  claimed window, and \<open>Remove\<close> returns false and removes nothing.
\<close>

theorem OrderedQueue_Remove_window_counterexample:
  "findOrderedQueueInsertingIndex
     [\<lparr>GetID = ''a'', OrderingValue = 1\<rparr>, \<lparr>GetID = ''b'', OrderingValue = 1\<rparr>,
      \<lparr>GetID = ''c'', OrderingValue = 1\<rparr>] 3 \<lparr>GetID = ''b'', OrderingValue = 1\<rparr> OrderingAsc = Inr 3
   \<and> 1 \<in> set (claimed_window 3 3)
   \<and> GetID ([\<lparr>GetID = ''a'', OrderingValue = 1\<rparr>, \<lparr>GetID = ''b'', OrderingValue = 1\<rparr>,
             \<lparr>GetID = ''c'', OrderingValue = 1\<rparr>] ! 1) = GetID \<lparr>GetID = ''b'', OrderingValue = 1\<rparr>
   \<and> OrderedQueue_Remove
       \<lparr>queue = [\<lparr>GetID = ''a'', OrderingValue = 1\<rparr>, \<lparr>GetID = ''b'', OrderingValue = 1\<rparr>,
                 \<lparr>GetID = ''c'', OrderingValue = 1\<rparr>], ordering = OrderingAsc\<rparr>
       \<lparr>GetID = ''b'', OrderingValue = 1\<rparr>
     = Inr (False,
         \<lparr>queue = [\<lparr>GetID = ''a'', OrderingValue = 1\<rparr>, \<lparr>GetID = ''b'', OrderingValue = 1\<rparr>,
                   \<lparr>GetID = ''c'', OrderingValue = 1\<rparr>], ordering = OrderingAsc\<rparr>)"
  by code_simp

text \<open>
  Claim C4, amended. \<open>Remove(item)\<close> takes the inserting index that the binary search
  finds for \<open>item\<close> as its estimate and compares identities only at the estimate, at the
  position after it and at the position before it, in this order and only where they are
  positions of the queue. It removes the first of these elements whose identity is that of
  \<open>item\<close> and returns true; when none matches it returns false and leaves the queue as it
  is, even when an element with that identity is elsewhere in the queue, as \<open>a\<close> is in the
  queue \<open>a, b, c\<close> of three elements with ordering value 1.
\<close>

theorem OrderedQueue_Remove_scanned_positions:
  fixes q :: "'a OrderedQueue"
  shows
    "(\<exists>idx. findOrderedQueueInsertingIndex (queue q) (int (length (queue q))) item (ordering q)
              = Inr idx
        \<and> OrderedQueue_Remove q item =
            (case find (\<lambda>c. GetID item = GetID (queue q ! nat c))
                    (scanned_positions idx (int (length (queue q)))) of
               None \<Rightarrow> Inr (False, q)
             | Some c \<Rightarrow>
                 Inr (True, q\<lparr>queue := take (nat c) (queue q) @ drop (nat c + 1) (queue q)\<rparr>)))
     \<and> OrderedQueue_Remove
         \<lparr>queue = [\<lparr>GetID = ''a'', OrderingValue = 1\<rparr>, \<lparr>GetID = ''b'', OrderingValue = 1\<rparr>,
                   \<lparr>GetID = ''c'', OrderingValue = 1\<rparr>], ordering = OrderingAsc\<rparr>
         \<lparr>GetID = ''a'', OrderingValue = 1\<rparr>
       = Inr (False,
           \<lparr>queue = [\<lparr>GetID = ''a'', OrderingValue = 1\<rparr>, \<lparr>GetID = ''b'', OrderingValue = 1\<rparr>,
                     \<lparr>GetID = ''c'', OrderingValue = 1\<rparr>], ordering = OrderingAsc\<rparr>)"
proof (rule conjI)
  show "\<exists>idx. findOrderedQueueInsertingIndex (queue q) (int (length (queue q))) item (ordering q)
              = Inr idx
        \<and> OrderedQueue_Remove q item =
            (case find (\<lambda>c. GetID item = GetID (queue q ! nat c))
                    (scanned_positions idx (int (length (queue q)))) of
               None \<Rightarrow> Inr (False, q)
             | Some c \<Rightarrow>
                 Inr (True, q\<lparr>queue := take (nat c) (queue q) @ drop (nat c + 1) (queue q)\<rparr>))"
    by (rule OrderedQueue_Remove_scan)
  show "OrderedQueue_Remove
         \<lparr>queue = [\<lparr>GetID = ''a'', OrderingValue = 1\<rparr>, \<lparr>GetID = ''b'', OrderingValue = 1\<rparr>,
                   \<lparr>GetID = ''c'', OrderingValue = 1\<rparr>], ordering = OrderingAsc\<rparr>
         \<lparr>GetID = ''a'', OrderingValue = 1\<rparr>
       = Inr (False,
           \<lparr>queue = [\<lparr>GetID = ''a'', OrderingValue = 1\<rparr>, \<lparr>GetID = ''b'', OrderingValue = 1\<rparr>,
                     \<lparr>GetID = ''c'', OrderingValue = 1\<rparr>], ordering = OrderingAsc\<rparr>)"
    by code_simp
qed

theorem OrderedQueue_Remove_scanned_positions_witness:
  "OrderedQueue_Remove
     \<lparr>queue = [\<lparr>GetID = ''x'', OrderingValue = 1\<rparr>, \<lparr>GetID = ''y'', OrderingValue = 3\<rparr>,
               \<lparr>GetID = ''z'', OrderingValue = 5\<rparr>], ordering = OrderingAsc\<rparr>
     \<lparr>GetID = ''y'', OrderingValue = 3\<rparr>
   = Inr (True,
       \<lparr>queue = [\<lparr>GetID = ''x'', OrderingValue = 1\<rparr>, \<lparr>GetID = ''z'', OrderingValue = 5\<rparr>],
        ordering = OrderingAsc\<rparr>)"
proof -
  let ?q = "\<lparr>queue = [\<lparr>GetID = ''x'', OrderingValue = 1\<rparr>, \<lparr>GetID = ''y'', OrderingValue = 3\<rparr>,
               \<lparr>GetID = ''z'', OrderingValue = 5\<rparr>], ordering = OrderingAsc\<rparr>"
  let ?item = "\<lparr>GetID = ''y'', OrderingValue = 3\<rparr>"
  have est: "findOrderedQueueInsertingIndex (queue ?q) (int (length (queue ?q))) ?item (ordering ?q) = Inr 2"
    by code_simp
  from OrderedQueue_Remove_scanned_positions [of ?q ?item]
  obtain idx where idx:
      "findOrderedQueueInsertingIndex (queue ?q) (int (length (queue ?q))) ?item (ordering ?q) = Inr idx"
      "OrderedQueue_Remove ?q ?item =
            (case find (\<lambda>c. GetID ?item = GetID (queue ?q ! nat c))
                    (scanned_positions idx (int (length (queue ?q)))) of
               None \<Rightarrow> Inr (False, ?q)
             | Some c \<Rightarrow>
                 Inr (True, ?q\<lparr>queue := take (nat c) (queue ?q) @ drop (nat c + 1) (queue ?q)\<rparr>))"
    by blast
  have "idx = 2" using est idx(1) by simp
  then show ?thesis using idx(2) by (simp add: scanned_positions_def)
qed

text \<open>
  Claim C10. \<open>GetOne(item)\<close> compares identities only at the positions that
  \<open>findElementIndex\<close> scans around the inserting index found for the ordering value of
  \<open>item\<close>, and what it returns with the flag is always its argument. So it reports
  not found for \<open>a\<close> in the queue \<open>a, b, c\<close> of three elements with ordering value 1,
  where \<open>a\<close> is; and on the queue holding \<open>a\<close> with ordering value 1 the lookup of an
  \<open>a\<close> with ordering value 2 reports found and returns the argument, with ordering value
  2, not the stored element.
\<close>

theorem OrderedQueue_GetOne_bounded_returns_argument:
  fixes q :: "'a OrderedQueue"
  shows
    "(\<exists>idx. findOrderedQueueInsertingIndex (queue q) (int (length (queue q))) item (ordering q)
              = Inr idx
        \<and> OrderedQueue_GetOne q item =
            Inr (item, find (\<lambda>c. GetID item = GetID (queue q ! nat c))
                         (scanned_positions idx (int (length (queue q)))) \<noteq> None))
     \<and> OrderedQueue_GetOne
         \<lparr>queue = [\<lparr>GetID = ''a'', OrderingValue = 1\<rparr>, \<lparr>GetID = ''b'', OrderingValue = 1\<rparr>,
                   \<lparr>GetID = ''c'', OrderingValue = 1\<rparr>], ordering = OrderingAsc\<rparr>
         \<lparr>GetID = ''a'', OrderingValue = 1\<rparr>
       = Inr (\<lparr>GetID = ''a'', OrderingValue = 1\<rparr>, False)
     \<and> OrderedQueue_GetOne
         \<lparr>queue = [\<lparr>GetID = ''a'', OrderingValue = 1\<rparr>], ordering = OrderingAsc\<rparr>
         \<lparr>GetID = ''a'', OrderingValue = 2\<rparr>
       = Inr (\<lparr>GetID = ''a'', OrderingValue = 2\<rparr>, True)"
proof (intro conjI)
  show "\<exists>idx. findOrderedQueueInsertingIndex (queue q) (int (length (queue q))) item (ordering q)
              = Inr idx
        \<and> OrderedQueue_GetOne q item =
            Inr (item, find (\<lambda>c. GetID item = GetID (queue q ! nat c))
                         (scanned_positions idx (int (length (queue q)))) \<noteq> None)"
    by (rule OrderedQueue_GetOne_scan)
  show "OrderedQueue_GetOne
         \<lparr>queue = [\<lparr>GetID = ''a'', OrderingValue = 1\<rparr>, \<lparr>GetID = ''b'', OrderingValue = 1\<rparr>,
                   \<lparr>GetID = ''c'', OrderingValue = 1\<rparr>], ordering = OrderingAsc\<rparr>
         \<lparr>GetID = ''a'', OrderingValue = 1\<rparr>
       = Inr (\<lparr>GetID = ''a'', OrderingValue = 1\<rparr>, False)"
    by code_simp
  show "OrderedQueue_GetOne
         \<lparr>queue = [\<lparr>GetID = ''a'', OrderingValue = 1\<rparr>], ordering = OrderingAsc\<rparr>
         \<lparr>GetID = ''a'', OrderingValue = 2\<rparr>
       = Inr (\<lparr>GetID = ''a'', OrderingValue = 2\<rparr>, True)"
    by code_simp
qed

theorem OrderedQueue_GetOne_bounded_returns_argument_witness:
  "OrderedQueue_GetOne
     \<lparr>queue = [\<lparr>GetID = ''x'', OrderingValue = 1\<rparr>, \<lparr>GetID = ''y'', OrderingValue = 3\<rparr>,
               \<lparr>GetID = ''z'', OrderingValue = 5\<rparr>], ordering = OrderingAsc\<rparr>
     \<lparr>GetID = ''y'', OrderingValue = 4\<rparr>
   = Inr (\<lparr>GetID = ''y'', OrderingValue = 4\<rparr>, True)"
proof -
  let ?q = "\<lparr>queue = [\<lparr>GetID = ''x'', OrderingValue = 1\<rparr>, \<lparr>GetID = ''y'', OrderingValue = 3\<rparr>,
               \<lparr>GetID = ''z'', OrderingValue = 5\<rparr>], ordering = OrderingAsc\<rparr>"
  let ?item = "\<lparr>GetID = ''y'', OrderingValue = 4\<rparr>"
  have est: "findOrderedQueueInsertingIndex (queue ?q) (int (length (queue ?q))) ?item (ordering ?q) = Inr 2"
    by code_simp
  from OrderedQueue_GetOne_bounded_returns_argument [of ?q ?item]
  obtain idx where idx:
      "findOrderedQueueInsertingIndex (queue ?q) (int (length (queue ?q))) ?item (ordering ?q) = Inr idx"
      "OrderedQueue_GetOne ?q ?item =
            Inr (?item, find (\<lambda>c. GetID ?item = GetID (queue ?q ! nat c))
                         (scanned_positions idx (int (length (queue ?q)))) \<noteq> None)"
    by blast
  have "idx = 2" using est idx(1) by simp
  then show ?thesis using idx(2) by (simp add: scanned_positions_def)
qed

section \<open>The retry delay and the scheduling of a retry\<close>

lemma formatRetryDuration_sint:
  assumes "0 \<le> sint r" "5 * sint r < 2 ^ 63"
  shows "sint (formatRetryDuration r) = (if sint r < 3 then 5 else 5 * sint r)"
proof (cases "r <s 3")
  case True
  then show ?thesis
    by (simp add: formatRetryDuration_def RetryDurationFactor_def word_sless_alt)
next
  case False
  have "sint (5 * r) = signed_take_bit 63 (5 * sint r)"
    by (simp add: sint_word_ariths)
  also have "\<dots> = 5 * sint r"
    using assms by (intro signed_take_bit_int_eq_self) simp_all
  finally show ?thesis
    using False by (simp add: formatRetryDuration_def RetryDurationFactor_def word_sless_alt)
qed

lemma OrderedQueue_Push_at:
  fixes q :: "'a OrderedQueue"
  shows "\<exists>pre post. OrderedQueue_Elements q = pre @ post
     \<and> OrderedQueue_Push q item = Inr (True, q\<lparr>queue := pre @ [item] @ post\<rparr>)"
proof -
  obtain r where "OrderedQueue_Add q item = Inr (q\<lparr>queue := take r (queue q) @ [item] @ drop r (queue q)\<rparr>)"
    using OrderedQueue_Add_at [of q item] by blast
  then have "OrderedQueue_Push q item = Inr (True, q\<lparr>queue := take r (queue q) @ [item] @ drop r (queue q)\<rparr>)"
    by (simp add: OrderedQueue_Push_def)
  moreover have "OrderedQueue_Elements q = take r (queue q) @ drop r (queue q)"
    by (simp add: OrderedQueue_Elements_def)
  ultimately show ?thesis by blast
qed

text \<open>
  Claim C5. When a query fails with \<open>shouldRetry > 0\<close> and \<open>retries < shouldRetry\<close>, the
  delay is the base factor for \<open>retries < 3\<close> and the base factor times \<open>retries\<close>
  otherwise (in Go's arithmetic, which is that of the integers as long as the product fits
  in 64 bits), and \<open>afterQueryFailed\<close> does not panic and adds to the pending queue exactly
  one entry, for the failed request, whose trigger timestamp is the current Unix time plus
  that delay.
\<close>

theorem afterQueryFailed_schedules_retry:
  fixes opts :: "'o httpClientOption_scheme" and s :: "'o scheduler"
  assumes "0 <s shouldRetry opts" and "retries opts <s shouldRetry opts"
  shows
    "formatRetryDuration (retries opts) =
       (if retries opts <s 3 then RetryDurationFactor
        else RetryDurationFactor * retries opts)
     \<and> (0 \<le> sint (retries opts) \<and> 5 * sint (retries opts) < 2 ^ 63 \<longrightarrow>
          sint (formatRetryDuration (retries opts)) =
            (if sint (retries opts) < 3 then 5 else 5 * sint (retries opts)))
     \<and> (\<exists>re pre post.
          re = \<lparr>method' = m, url = u, body = b, options = opts,
                triggerTimestamp = now + formatRetryDuration (retries opts)\<rparr>
          \<and> OrderedQueue_Elements (pendingRequestsQueue s) = pre @ post
          \<and> afterQueryFailed now m u b opts s =
              Inr (s\<lparr>pendingRequestsQueue :=
                       (pendingRequestsQueue s)\<lparr>queue := pre @ [requestEntity_IElement re] @ post\<rparr>,
                     pendingRequestsTimer := True\<rparr>)
          \<and> OrderingValue (requestEntity_IElement re) =
              sint (now + formatRetryDuration (retries opts)))"
proof (intro conjI impI)
  show "formatRetryDuration (retries opts) =
       (if retries opts <s 3 then RetryDurationFactor
        else RetryDurationFactor * retries opts)"
    by (simp add: formatRetryDuration_def)
next
  assume "0 \<le> sint (retries opts) \<and> 5 * sint (retries opts) < 2 ^ 63"
  then show "sint (formatRetryDuration (retries opts)) =
            (if sint (retries opts) < 3 then 5 else 5 * sint (retries opts))"
    by (simp add: formatRetryDuration_sint)
next
  define re where "re = \<lparr>method' = m, url = u, body = b, options = opts,
                triggerTimestamp = now + formatRetryDuration (retries opts)\<rparr>"
  obtain pre post where pp: "OrderedQueue_Elements (pendingRequestsQueue s) = pre @ post"
      "OrderedQueue_Push (pendingRequestsQueue s) (requestEntity_IElement re) =
         Inr (True, (pendingRequestsQueue s)\<lparr>queue := pre @ [requestEntity_IElement re] @ post\<rparr>)"
    using OrderedQueue_Push_at [of "pendingRequestsQueue s" "requestEntity_IElement re"] by blast
  have no: "\<not> shouldRetry opts \<le>s retries opts"
    using assms(2) by (simp add: word_sless_alt word_sle_eq)
  have "afterQueryFailed now m u b opts s =
      Inr (s\<lparr>pendingRequestsQueue :=
               (pendingRequestsQueue s)\<lparr>queue := pre @ [requestEntity_IElement re] @ post\<rparr>,
             pendingRequestsTimer := True\<rparr>)"
    using assms(1) no pp(2) by (simp add: afterQueryFailed_def Let_def re_def [symmetric])
  moreover have "OrderingValue (requestEntity_IElement re) =
      sint (now + formatRetryDuration (retries opts))"
    by (simp add: requestEntity_IElement_def re_def)
  ultimately show "\<exists>re pre post.
          re = \<lparr>method' = m, url = u, body = b, options = opts,
                triggerTimestamp = now + formatRetryDuration (retries opts)\<rparr>
          \<and> OrderedQueue_Elements (pendingRequestsQueue s) = pre @ post
          \<and> afterQueryFailed now m u b opts s =
              Inr (s\<lparr>pendingRequestsQueue :=
                       (pendingRequestsQueue s)\<lparr>queue := pre @ [requestEntity_IElement re] @ post\<rparr>,
                     pendingRequestsTimer := True\<rparr>)
          \<and> OrderingValue (requestEntity_IElement re) =
              sint (now + formatRetryDuration (retries opts))"
    using pp(1) re_def by blast
qed

theorem afterQueryFailed_schedules_retry_witness:
  "(0 :: int64) <s 5 \<and> (3 :: int64) <s 5
   \<and> formatRetryDuration 3 = 15 \<and> sint (formatRetryDuration 3) = 15
   \<and> afterQueryFailed 1000 ''POST'' ''http://h/p'' [] \<lparr>retries = 3, shouldRetry = 5\<rparr>
       \<lparr>pendingRequestsQueue = NewAscOrderingQueue, pendingRequestsTimer = False\<rparr>
     = Inr \<lparr>pendingRequestsQueue =
              \<lparr>queue = [requestEntity_IElement
                          \<lparr>method' = ''POST'', url = ''http://h/p'', body = [],
                           options = \<lparr>retries = 3, shouldRetry = 5\<rparr>,
                           triggerTimestamp = 1015\<rparr>],
               ordering = OrderingAsc\<rparr>,
            pendingRequestsTimer = True\<rparr>"
proof -
  let ?opts = "\<lparr>retries = 3, shouldRetry = 5\<rparr> :: httpClientOption"
  let ?s = "\<lparr>pendingRequestsQueue = NewAscOrderingQueue, pendingRequestsTimer = False\<rparr>
              :: unit scheduler"
  have h1: "0 <s shouldRetry ?opts" and h2: "retries ?opts <s shouldRetry ?opts"
    by (simp_all add: word_sless_alt)
  from afterQueryFailed_schedules_retry [OF h1 h2, of "''POST''" "''http://h/p''" "[]" 1000 ?s]
  obtain pre post where
      f: "formatRetryDuration (retries ?opts) =
           (if retries ?opts <s 3 then RetryDurationFactor else RetryDurationFactor * retries ?opts)"
    and i: "0 \<le> sint (retries ?opts) \<and> 5 * sint (retries ?opts) < 2 ^ 63 \<longrightarrow>
          sint (formatRetryDuration (retries ?opts)) =
            (if sint (retries ?opts) < 3 then 5 else 5 * sint (retries ?opts))"
    and e: "OrderedQueue_Elements (pendingRequestsQueue ?s) = pre @ post"
    and a: "afterQueryFailed 1000 ''POST'' ''http://h/p'' [] ?opts ?s =
        Inr (?s\<lparr>pendingRequestsQueue :=
                 (pendingRequestsQueue ?s)\<lparr>queue := pre @
                    [requestEntity_IElement
                      \<lparr>method' = ''POST'', url = ''http://h/p'', body = [], options = ?opts,
                       triggerTimestamp = 1000 + formatRetryDuration (retries ?opts)\<rparr>] @ post\<rparr>,
               pendingRequestsTimer := True\<rparr>)"
    by blast
  have f3: "formatRetryDuration 3 = 15"
    using f by (simp add: RetryDurationFactor_def)
  have i3: "sint (formatRetryDuration 3) = 15"
    using i by simp
  have "pre = []" "post = []"
    using e by (simp_all add: OrderedQueue_Elements_def NewAscOrderingQueue_def)
  then show ?thesis
    using a f3 i3 by (simp add: NewAscOrderingQueue_def word_sless_alt)
qed

text \<open>
  Claim C6, as stated: the delay for \<open>retries = 3\<close> would be four times the base factor.
  It is three times the base factor, 15 seconds and not 20.
\<close>

theorem formatRetryDuration_counterexample:
  "formatRetryDuration 3 = 3 * RetryDurationFactor
   \<and> formatRetryDuration 3 \<noteq> 4 * RetryDurationFactor
   \<and> formatRetryDuration 4 \<noteq> 5 * RetryDurationFactor"
  by (simp add: formatRetryDuration_def RetryDurationFactor_def)

text \<open>
  Claim C6, amended. For \<open>retries = 0, 1, 2, 3, 4\<close> the delay is the base factor, the base
  factor, the base factor, three times and four times the base factor.
\<close>

theorem formatRetryDuration_schedule:
  "formatRetryDuration 0 = RetryDurationFactor
   \<and> formatRetryDuration 1 = RetryDurationFactor
   \<and> formatRetryDuration 2 = RetryDurationFactor
   \<and> formatRetryDuration 3 = 3 * RetryDurationFactor
   \<and> formatRetryDuration 4 = 4 * RetryDurationFactor"
  by (simp add: formatRetryDuration_def RetryDurationFactor_def word_sless_alt)

section \<open>Panics of the retry action\<close>






end
